theory Spec2Isabelle
  imports Main "HOL-Library.AList"
begin

section \<open>Strings\<close>

text \<open>
  A JavaScript string is represented by the bytes of its UTF-8 encoding. The text of an
  uploaded file is decoded by \<^verbatim>\<open>FileReader.readAsText\<close>, so it is well-formed and this
  representation loses nothing. Comma, double quote, line feed and carriage return are
  single bytes that occur inside no longer encoding, so that cutting and comparing
  strings byte by byte is what the program does code unit by code unit.
\<close>

abbreviation dquote :: char where
  "dquote \<equiv> CHR 0x22"

abbreviation comma :: char where
  "comma \<equiv> CHR '',''"

abbreviation newline :: char where
  "newline \<equiv> CHR 0x0A"

abbreviation cr :: char where
  "cr \<equiv> CHR 0x0D"

text \<open>
  The white space and line terminators of ECMAScript, which \<^verbatim>\<open>trim\<close> removes, each by its
  encoding: U+0009 to U+000D, U+0020, U+00A0, U+1680, U+2000 to U+200A, U+2028, U+2029,
  U+202F, U+205F, U+3000 and U+FEFF.
\<close>

definition whitespace :: "string list" where
  "whitespace =
     [[CHR 0x09], [CHR 0x0A], [CHR 0x0B], [CHR 0x0C], [CHR 0x0D], [CHR 0x20],
      [CHR 0xC2, CHR 0xA0],
      [CHR 0xE1, CHR 0x9A, CHR 0x80],
      [CHR 0xE2, CHR 0x80, CHR 0x80], [CHR 0xE2, CHR 0x80, CHR 0x81],
      [CHR 0xE2, CHR 0x80, CHR 0x82], [CHR 0xE2, CHR 0x80, CHR 0x83],
      [CHR 0xE2, CHR 0x80, CHR 0x84], [CHR 0xE2, CHR 0x80, CHR 0x85],
      [CHR 0xE2, CHR 0x80, CHR 0x86], [CHR 0xE2, CHR 0x80, CHR 0x87],
      [CHR 0xE2, CHR 0x80, CHR 0x88], [CHR 0xE2, CHR 0x80, CHR 0x89],
      [CHR 0xE2, CHR 0x80, CHR 0x8A],
      [CHR 0xE2, CHR 0x80, CHR 0xA8], [CHR 0xE2, CHR 0x80, CHR 0xA9],
      [CHR 0xE2, CHR 0x80, CHR 0xAF],
      [CHR 0xE2, CHR 0x81, CHR 0x9F],
      [CHR 0xE3, CHR 0x80, CHR 0x80],
      [CHR 0xEF, CHR 0xBB, CHR 0xBF]]"

text \<open>Removing from the front of a string every leading occurrence of the given words.\<close>

function strip_start :: "string list \<Rightarrow> string \<Rightarrow> string" where
  "strip_start ws s =
     (case find (\<lambda>w. w \<noteq> [] \<and> take (length w) s = w) ws of
        None \<Rightarrow> s
      | Some w \<Rightarrow> strip_start ws (drop (length w) s))"
  by pat_completeness auto
termination
proof (relation "measure (\<lambda>(ws, s). length s)")
  show "wf (measure (\<lambda>(ws, s). length s))" by simp
next
  fix ws :: "string list" and s w :: string
  assume "find (\<lambda>w. w \<noteq> [] \<and> take (length w) s = w) ws = Some w"
  then have "w \<noteq> []" and t: "take (length w) s = w"
    by (auto simp: find_Some_iff)
  have "length (take (length w) s) = length w" using t by simp
  then have "length w \<le> length s" by simp
  then show "((ws, drop (length w) s), (ws, s)) \<in> measure (\<lambda>(ws, s). length s)"
    using \<open>w \<noteq> []\<close> by (cases w) auto
qed

declare strip_start.simps [simp del]

text \<open>\<^verbatim>\<open>s.trim()\<close>: the white space is removed from the front and from the end.\<close>

definition trim :: "string \<Rightarrow> string" where
  "trim s = rev (strip_start (map rev whitespace) (rev (strip_start whitespace s)))"

text \<open>\<^verbatim>\<open>s.replace(/\r\n/g, '\n')\<close>\<close>

fun replace_crlf :: "string \<Rightarrow> string" where
  "replace_crlf (a # b # cs) =
     (if a = cr \<and> b = newline then newline # replace_crlf cs
      else a # replace_crlf (b # cs))"
| "replace_crlf cs = cs"

text \<open>
  \<^verbatim>\<open>s.split(sep)\<close> for a separator that consumes one character: the string is cut at
  every character \<open>c\<close> that, together with the rest of the string after it, satisfies
  \<open>sep\<close>. The empty string splits into one empty field.
\<close>

fun split_when :: "(char \<Rightarrow> string \<Rightarrow> bool) \<Rightarrow> string \<Rightarrow> string list" where
  "split_when sep [] = [[]]"
| "split_when sep (c # cs) =
     (if sep c cs then [] # split_when sep cs
      else (case split_when sep cs of
              f # fs \<Rightarrow> (c # f) # fs
            | [] \<Rightarrow> [[c]]))"

text \<open>\<^verbatim>\<open>s.split(',')\<close> and \<^verbatim>\<open>s.split('\n')\<close>\<close>

definition split_on :: "char \<Rightarrow> string \<Rightarrow> string list" where
  "split_on d = split_when (\<lambda>c rest. c = d)"

text \<open>
  \<^verbatim>\<open>line.split(/,(?=(?:(?:[^"]*"){2})*[^"]*$)/)\<close>: a comma separates two values when
  the rest of the line after it consists of pairs of quote-terminated stretches followed
  by a quote-free stretch, that is when the rest holds an even number of double quotes.
\<close>

definition quote_aware_sep :: "char \<Rightarrow> string \<Rightarrow> bool" where
  "quote_aware_sep c rest = (c = comma \<and> even (count_list rest dquote))"

definition split_row :: "string \<Rightarrow> string list" where
  "split_row = split_when quote_aware_sep"

text \<open>\<^verbatim>\<open>xs.join(sep)\<close>, for an array of strings.\<close>

fun join :: "string \<Rightarrow> string list \<Rightarrow> string" where
  "join sep [] = []"
| "join sep [x] = x"
| "join sep (x # y # ys) = x @ sep @ join sep (y # ys)"

section \<open>The tabular input parser\<close>

text \<open>
  \<^verbatim>\<open>interface CSVRow { [key: string]: string }\<close>: an object created as \<^verbatim>\<open>{}\<close>, whose own
  properties are kept as an association list in order of creation. It inherits the
  properties of \<^verbatim>\<open>Object.prototype\<close>, listed here by name.
\<close>

type_synonym CSVRow = "(string \<times> string) list"

definition object_prototype_keys :: "string list" where
  "object_prototype_keys =
     [''constructor'', ''__defineGetter__'', ''__defineSetter__'', ''hasOwnProperty'',
      ''__lookupGetter__'', ''__lookupSetter__'', ''isPrototypeOf'', ''propertyIsEnumerable'',
      ''toString'', ''valueOf'', ''__proto__'', ''toLocaleString'']"

text \<open>
  \<^verbatim>\<open>row[key] = value\<close> with a string value: an own property is replaced in place or
  created at the end. Only the inherited \<^verbatim>\<open>__proto__\<close> is an accessor: its setter
  ignores a string, and no own property is created.
\<close>

definition row_assign :: "string \<Rightarrow> string \<Rightarrow> CSVRow \<Rightarrow> CSVRow" where
  "row_assign k v row =
     (if k = ''__proto__'' \<and> map_of row k = None then row else AList.update k v row)"

text \<open>
  \<^verbatim>\<open>row[key]\<close>: the string of an own property, an object or function of
  \<^verbatim>\<open>Object.prototype\<close> for an inherited one, or \<^verbatim>\<open>undefined\<close>.
\<close>

datatype js_value = Undefined | Str string | Inherited

definition row_lookup :: "CSVRow \<Rightarrow> string \<Rightarrow> js_value" where
  "row_lookup row k =
     (case map_of row k of
        Some v \<Rightarrow> Str v
      | None \<Rightarrow> (if k \<in> set object_prototype_keys then Inherited else Undefined))"

record csv_data =
  headers :: "string list"
  rows :: "CSVRow list"

text \<open>\<^verbatim>\<open>values[i] || ''\<close>\<close>

definition value_at :: "string list \<Rightarrow> nat \<Rightarrow> string" where
  "value_at vs i = (if i < length vs then vs ! i else [])"

text \<open>
  \<^verbatim>\<open>value.startsWith('"') && value.endsWith('"') ? value.slice(1, -1) : value\<close>
\<close>

definition strip_quotes :: "string \<Rightarrow> string" where
  "strip_quotes v =
     (if v \<noteq> [] \<and> hd v = dquote \<and> last v = dquote then butlast (tl v) else v)"

text \<open>The body of \<^verbatim>\<open>lines.slice(1).map(line => ...)\<close>, with its \<^verbatim>\<open>headers.forEach\<close>.\<close>

definition parse_row :: "string list \<Rightarrow> string \<Rightarrow> CSVRow" where
  "parse_row hs line =
     (let vals = split_row line in
      foldl (\<lambda>row (header, i). row_assign header (strip_quotes (trim (value_at vals i))) row)
        [] (zip hs [0..<length hs]))"

definition csv_lines :: "string \<Rightarrow> string list" where
  "csv_lines text = split_on newline (replace_crlf (trim text))"

definition header_fields :: "string \<Rightarrow> string list" where
  "header_fields line = map trim (split_on comma line)"

definition parseCSV :: "string \<Rightarrow> csv_data" where
  "parseCSV text =
     (let lines = csv_lines text in
      if length lines < 2 then \<lparr>headers = [], rows = []\<rparr>
      else
        (let hs = header_fields (hd lines) in
         \<lparr>headers = hs, rows = map (parse_row hs) (tl lines)\<rparr>))"

section \<open>The row processor: building the request\<close>

text \<open>
  \<^verbatim>\<open>Object.entries(row)\<close> lists the own properties of an object: first the keys that are
  array indices (canonical decimal numerals below \<open>2^32 - 1\<close>) in ascending numeric
  order, then the remaining keys in order of creation.
\<close>

definition is_digit :: "char \<Rightarrow> bool" where
  "is_digit c = (48 \<le> (of_char c :: nat) \<and> (of_char c :: nat) \<le> 57)"

definition nat_of_digits :: "string \<Rightarrow> nat" where
  "nat_of_digits k = foldl (\<lambda>n c. 10 * n + ((of_char c :: nat) - 48)) 0 k"

definition is_array_index :: "string \<Rightarrow> bool" where
  "is_array_index k =
     (k \<noteq> [] \<and> list_all is_digit k \<and> (hd k \<noteq> CHR ''0'' \<or> k = ''0'') \<and>
      nat_of_digits k < 2 ^ 32 - 1)"

definition object_entries :: "CSVRow \<Rightarrow> (string \<times> string) list" where
  "object_entries row =
     sort_key (\<lambda>e. nat_of_digits (fst e)) (filter (\<lambda>e. is_array_index (fst e)) row) @
     filter (\<lambda>e. \<not> is_array_index (fst e)) row"

text \<open>
  \<^verbatim>\<open>key.toLowerCase()\<close>, on the ASCII letters. Its result is only compared with the words
  of \<^verbatim>\<open>RESERVED_KEYS\<close>, and no character outside ASCII has a lower-case form that is a
  letter of these words, so the comparison is the program's.
\<close>

definition lower_char :: "char \<Rightarrow> char" where
  "lower_char c =
     (case map_of (zip ''ABCDEFGHIJKLMNOPQRSTUVWXYZ'' ''abcdefghijklmnopqrstuvwxyz'') c of
        Some l \<Rightarrow> l
      | None \<Rightarrow> c)"

definition toLowerCase :: "string \<Rightarrow> string" where
  "toLowerCase = map lower_char"

definition RESERVED_KEYS :: "string list" where
  "RESERVED_KEYS = [''filename'', ''title'', ''content'']"

text \<open>
  \<^verbatim>\<open>row.title || ''\<close> and \<^verbatim>\<open>row.content || ''\<close>: \<^verbatim>\<open>Object.prototype\<close> has no property of
  these names, so the member is the own string or \<^verbatim>\<open>undefined\<close>.
\<close>

definition title :: "CSVRow \<Rightarrow> string" where
  "title row = (case row_lookup row ''title'' of Str v \<Rightarrow> v | _ \<Rightarrow> [])"

definition content :: "CSVRow \<Rightarrow> string" where
  "content row = (case row_lookup row ''content'' of Str v \<Rightarrow> v | _ \<Rightarrow> [])"

text \<open>
  \<^verbatim>\<open>Object.entries(row).filter(([key, value]) =>
      !RESERVED_KEYS.includes(key.toLowerCase()) && value)\<close>;
  the following \<^verbatim>\<open>map\<close> only renames the components to \<open>label\<close> and \<open>value\<close>.
\<close>

definition attributes :: "CSVRow \<Rightarrow> (string \<times> string) list" where
  "attributes row =
     filter (\<lambda>e. toLowerCase (fst e) \<notin> set RESERVED_KEYS \<and> snd e \<noteq> []) (object_entries row)"

definition attributesText :: "CSVRow \<Rightarrow> string" where
  "attributesText row =
     (if attributes row \<noteq> []
      then [newline, newline] @ ''Attributes:'' @ [newline] @
           join [newline] (map (\<lambda>attr. ''- '' @ fst attr @ '': '' @ snd attr) (attributes row))
      else [])"

text \<open>
  The prompt sent as \<^verbatim>\<open>contents\<close>. The system instruction, the response schema and the
  model parameters of the request are constants of the program and do not depend on the
  row.
\<close>

definition userPrompt :: "CSVRow \<Rightarrow> string" where
  "userPrompt row =
     ''Generate keywords for the following document:'' @ [newline, newline] @
     ''Title: '' @ title row @ attributesText row @ [newline, newline] @
     ''Description: '' @ content row"

section \<open>The row processor: reading the reply\<close>

text \<open>
  What a \<^verbatim>\<open>catch (err)\<close> receives: an instance of \<^verbatim>\<open>Error\<close> with its message, or any
  other thrown value.
\<close>

datatype thrown = ErrorInstance string | OtherThrown

text \<open>
  A value as \<^verbatim>\<open>JSON.parse\<close> returns it. A number is kept as the text \<^verbatim>\<open>String(n)\<close> of
  its value, which is \<^verbatim>\<open>0\<close> for both zeros and differs for different values; an object
  as the list of its members, each name once.
\<close>

datatype json =
    JNull
  | JBool bool
  | JNum string
  | JStr string
  | JArr "json list"
  | JObj "(string \<times> json) list"

text \<open>The values that count as true in a condition.\<close>

fun truthy :: "json \<Rightarrow> bool" where
  "truthy JNull = False"
| "truthy (JBool b) = b"
| "truthy (JNum n) = (n \<noteq> ''0'')"
| "truthy (JStr s) = (s \<noteq> [])"
| "truthy (JArr xs) = True"
| "truthy (JObj ms) = True"

text \<open>
  \<^verbatim>\<open>result.keywords\<close>: the member of an object, and \<^verbatim>\<open>undefined\<close> for every other value
  and for an object without this member.
\<close>

fun keywords_member :: "json \<Rightarrow> json option" where
  "keywords_member (JObj ms) = map_of ms ''keywords''"
| "keywords_member v = None"

text \<open>
  How the awaited call ends: \<^verbatim>\<open>generateContent\<close> throws, \<^verbatim>\<open>JSON.parse\<close> throws a
  \<^verbatim>\<open>SyntaxError\<close> with a message, or the text parses to a value.
\<close>

datatype api_reply = CallThrows thrown | ParseThrows string | Parsed json

text \<open>
  The function is declared to return \<^verbatim>\<open>Promise<string[]>\<close>, but the value comes from
  \<^verbatim>\<open>JSON.parse\<close> and only \<^verbatim>\<open>result && result.keywords\<close> is tested: every true
  \<^verbatim>\<open>keywords\<close> is returned as it is.
\<close>

definition generateKeywordsFromApi :: "api_reply \<Rightarrow> thrown + json" where
  "generateKeywordsFromApi reply =
     (case reply of
        CallThrows t \<Rightarrow> Inl t
      | ParseThrows m \<Rightarrow> Inl (ErrorInstance m)
      | Parsed result \<Rightarrow>
          (case (if truthy result then keywords_member result else None) of
             Some k \<Rightarrow>
               (if truthy k then Inr k
                else Inl (ErrorInstance ''Could not parse keywords from the response.''))
           | None \<Rightarrow> Inl (ErrorInstance ''Could not parse keywords from the response.'')))"

section \<open>The bulk generator's state\<close>

datatype row_status = Pending | Processing | Completed | Error

text \<open>
  \<^verbatim>\<open>interface ResultRow\<close>; its member \<^verbatim>\<open>keywords\<close> is the field \<open>row_keywords\<close>, an array
  of parsed values.
\<close>

record ResultRow =
  status :: row_status
  row_keywords :: "json list"
  error :: "string option"

datatype run_status = Idle | Running | Paused | Done

record csv_file =
  file_name :: string
  file_type :: string
  file_text :: string

text \<open>
  One run of \<^verbatim>\<open>processRow\<close>: the \<^verbatim>\<open>currentIndex\<close> its closure captured, the prompt it
  sent, the \<^verbatim>\<open>isCancelled\<close> flag of its closure, and whether its awaited call has
  settled.
\<close>

record call =
  idx :: nat
  request :: string
  isCancelled :: bool
  settled :: bool

text \<open>
  The component state: the \<^verbatim>\<open>useState\<close> cells \<^verbatim>\<open>file\<close> (here \<open>selected_file\<close>),
  \<open>csvData\<close>, \<open>results\<close>, \<open>status\<close> (here \<open>run_status\<close>), \<open>currentIndex\<close> and \<open>error\<close> (here
  \<open>ui_error\<close>); the file readers whose \<^verbatim>\<open>onload\<close> has not fired yet; every call started
  so far, in order; the call whose flag the cleanup function of the last effect run
  sets, if that run returned one; a mark set when the program stores what
  \<open>ResultRow list\<close> cannot hold (an assignment \<^verbatim>\<open>newResults[i] = ...\<close> outside the array,
  which JavaScript extends with holes, or a \<^verbatim>\<open>keywords\<close> that is no array of displayable
  values, stored while the table is not shown); and whether a render has thrown, upon
  which React removes the component from the page for good, as no error boundary
  encloses it. The cell \<open>copySuccess\<close> of the clipboard button plays no part in the
  pipeline and is left out.

  An event is taken as one step: the state updates of its handler, then the cleanup and
  the effect of the render they cause.
\<close>

record state =
  selected_file :: "csv_file option"
  csvData :: csv_data
  results :: "ResultRow list"
  run_status :: run_status
  currentIndex :: nat
  ui_error :: "string option"
  reading :: "csv_file list"
  calls :: "call list"
  cleanup :: "nat option"
  out_of_range :: bool
  unmounted :: bool

definition init_state :: state where
  "init_state =
     \<lparr>selected_file = None, csvData = \<lparr>headers = [], rows = []\<rparr>, results = [], run_status = Idle,
      currentIndex = 0, ui_error = None, reading = [], calls = [], cleanup = None,
      out_of_range = False, unmounted = False\<rparr>"

text \<open>\<^verbatim>\<open>setResults(prev => { const n = [...prev]; n[i] = f(n[i]); return n; })\<close>\<close>

definition write_result :: "nat \<Rightarrow> (ResultRow \<Rightarrow> ResultRow) \<Rightarrow> state \<Rightarrow> state" where
  "write_result i f s =
     (if i < length (results s) then s\<lparr>results := (results s)[i := f (results s ! i)]\<rparr>
      else s\<lparr>out_of_range := True\<rparr>)"

text \<open>The cleanup function \<^verbatim>\<open>() => { isCancelled = true; }\<close> of the last effect run.\<close>

definition run_cleanup :: "state \<Rightarrow> state" where
  "run_cleanup s =
     (case cleanup s of
        None \<Rightarrow> s
      | Some j \<Rightarrow> s\<lparr>calls := (calls s)[j := (calls s ! j)\<lparr>isCancelled := True\<rparr>],
                    cleanup := None\<rparr>)"

text \<open>
  The body of the scheduling effect up to the \<^verbatim>\<open>await\<close>: it returns early, turning
  \<open>running\<close> into \<open>done\<close> at the end of the table, or marks the row \<open>processing\<close>, starts
  the call and returns the cleanup function.
\<close>

definition effect :: "state \<Rightarrow> state" where
  "effect s =
     (if run_status s \<noteq> Running \<or> currentIndex s \<ge> length (rows (csvData s)) then
        (if run_status s = Running \<and> currentIndex s \<ge> length (rows (csvData s))
         then s\<lparr>run_status := Done\<rparr> else s)
      else
        (write_result (currentIndex s) (\<lambda>r. r\<lparr>status := Processing\<rparr>) s)
          \<lparr>calls := calls s @
             [\<lparr>idx = currentIndex s,
               request = userPrompt (rows (csvData s) ! currentIndex s),
               isCancelled = False, settled = False\<rparr>],
           cleanup := Some (length (calls s))\<rparr>)"

text \<open>
  A render in which one of the dependencies \<open>status\<close>, \<open>currentIndex\<close>, \<open>csvData.rows\<close>
  changed: the previous cleanup runs, then the effect. When the effect sets \<open>done\<close> it
  runs once more, finds the status not \<open>running\<close> and returns without a cleanup
  function, which changes nothing.
\<close>

definition rerender :: "state \<Rightarrow> state" where
  "rerender s = effect (run_cleanup s)"

text \<open>
  A render that throws: the state updates that led to it are never shown, the cleanup
  function of the last effect runs as the component is removed, and the cells are gone
  (they are given their initial values here).
\<close>

definition unmount :: "state \<Rightarrow> state" where
  "unmount s =
     (run_cleanup s)\<lparr>selected_file := None, csvData := \<lparr>headers = [], rows = []\<rparr>, results := [],
                     run_status := Idle, currentIndex := 0, ui_error := None, unmounted := True\<rparr>"

text \<open>\<^verbatim>\<open>err instanceof Error ? err.message : 'Unknown error'\<close>\<close>

definition errorMessage :: "thrown \<Rightarrow> string" where
  "errorMessage err = (case err of ErrorInstance m \<Rightarrow> m | OtherThrown \<Rightarrow> ''Unknown error'')"

text \<open>
  The table cell of a row renders \<^verbatim>\<open>results[index]?.keywords.map(kw => <span>{kw}</span>)\<close>.
  A value that is no array has no function \<^verbatim>\<open>map\<close>, and the render throws a
  \<^verbatim>\<open>TypeError\<close>. Inside an array, React accepts strings and numbers as children, shows
  nothing for booleans and \<^verbatim>\<open>null\<close>, descends into arrays, and throws for an object.
\<close>

fun child_ok :: "json \<Rightarrow> bool" where
  "child_ok (JObj ms) = False"
| "child_ok (JArr xs) = list_all child_ok xs"
| "child_ok v = True"

fun keywords_array :: "json \<Rightarrow> json list option" where
  "keywords_array (JArr xs) = (if list_all child_ok xs then Some xs else None)"
| "keywords_array v = None"

text \<open>
  The entry that \<^verbatim>\<open>processRow\<close> stores when the awaited call has settled, if the table
  can be rendered with it.
\<close>

definition outcome :: "thrown + json \<Rightarrow> ResultRow option" where
  "outcome r =
     (case r of
        Inr k \<Rightarrow>
          map_option (\<lambda>xs. \<lparr>status = Completed, row_keywords = xs, error = None\<rparr>) (keywords_array k)
      | Inl err \<Rightarrow> Some \<lparr>status = Error, row_keywords = [], error = Some (errorMessage err)\<rparr>)"

text \<open>
  The continuation of \<^verbatim>\<open>processRow\<close> after the \<^verbatim>\<open>await\<close>, for the call number \<open>j\<close>:
  nothing is written when the closure's flag is set; otherwise the entry is written at
  the captured index and \<^verbatim>\<open>setCurrentIndex(prev => prev + 1)\<close> runs, in one render. The
  table is part of the view while a file is selected, and shows the rows of \<open>csvData\<close>:
  when the stored \<^verbatim>\<open>keywords\<close> cannot be rendered and its row is shown, the render throws.
\<close>

definition settle :: "nat \<Rightarrow> api_reply \<Rightarrow> state \<Rightarrow> state" where
  "settle j reply s =
     (if j \<ge> length (calls s) \<or> settled (calls s ! j) then s
      else
        (let c = calls s ! j;
             s1 = s\<lparr>calls := (calls s)[j := c\<lparr>settled := True\<rparr>]\<rparr>
         in if isCancelled c then s1
            else
              (case outcome (generateKeywordsFromApi reply) of
                 Some row \<Rightarrow>
                   rerender
                     ((write_result (idx c) (\<lambda>r. row) s1)\<lparr>currentIndex := currentIndex s1 + 1\<rparr>)
               | None \<Rightarrow>
                   (if selected_file s1 \<noteq> None \<and> idx c < length (rows (csvData s1))
                    then unmount s1
                    else rerender
                      (s1\<lparr>out_of_range := True, currentIndex := currentIndex s1 + 1\<rparr>)))))"

definition toggleProcessing :: "state \<Rightarrow> state" where
  "toggleProcessing s =
     rerender (s\<lparr>run_status := (if run_status s = Running then Paused else Running)\<rparr>)"

definition handleReset :: "state \<Rightarrow> state" where
  "handleReset s =
     rerender (s\<lparr>run_status := Idle, selected_file := None, csvData := \<lparr>headers = [], rows = []\<rparr>,
                 results := [], currentIndex := 0, ui_error := None\<rparr>)"

text \<open>\<^verbatim>\<open>handleFileChange\<close> up to \<^verbatim>\<open>reader.readAsText(selectedFile)\<close>.\<close>

definition handleFileChange :: "csv_file option \<Rightarrow> state \<Rightarrow> state" where
  "handleFileChange sel s =
     (case sel of
        None \<Rightarrow> s
      | Some f \<Rightarrow>
          (if file_type f \<noteq> ''text/csv''
           then s\<lparr>ui_error := Some ''Please upload a valid CSV file.''\<rparr>
           else s\<lparr>selected_file := Some f, ui_error := None, reading := reading s @ [f]\<rparr>))"

definition pending_row :: ResultRow where
  "pending_row = \<lparr>status = Pending, row_keywords = [], error = None\<rparr>"

text \<open>The \<^verbatim>\<open>onload\<close> handler of the reader number \<open>j\<close>.\<close>

definition reader_onload :: "nat \<Rightarrow> state \<Rightarrow> state" where
  "reader_onload j s =
     (if j \<ge> length (reading s) then s
      else
        (let parsed = parseCSV (file_text (reading s ! j));
             s1 = s\<lparr>reading := take j (reading s) @ drop (Suc j) (reading s)\<rparr>
         in if length (rows parsed) = 0 \<or> length (headers parsed) = 0
            then s1\<lparr>ui_error := Some ''CSV is empty or invalid.''\<rparr>
            else rerender
              (s1\<lparr>csvData := parsed,
                  results := replicate (length (rows parsed)) pending_row\<rparr>)))"

text \<open>
  The events. The view holds the file input while no file is selected, and the buttons
  while one is; the start/pause/resume button is disabled when the run is \<open>done\<close>. A
  control that is not in the view, or is disabled, delivers no event, and nothing
  reaches a component that has been removed.
\<close>

datatype event =
    SelectFile "csv_file option"
  | ReaderLoaded nat
  | Reset
  | Toggle
  | Settle nat api_reply

fun deliver :: "state \<Rightarrow> event \<Rightarrow> state" where
  "deliver s (SelectFile sel) = (if selected_file s = None then handleFileChange sel s else s)"
| "deliver s (ReaderLoaded j) = reader_onload j s"
| "deliver s Reset = (if selected_file s \<noteq> None then handleReset s else s)"
| "deliver s Toggle =
     (if selected_file s \<noteq> None \<and> run_status s \<noteq> Done then toggleProcessing s else s)"
| "deliver s (Settle j reply) = settle j reply s"

definition step :: "state \<Rightarrow> event \<Rightarrow> state" where
  "step s e = (if unmounted s then s else deliver s e)"

definition exec :: "state \<Rightarrow> event list \<Rightarrow> state" where
  "exec = foldl step"

section \<open>The result aggregator\<close>

text \<open>
  \<^verbatim>\<open>Array.from(new Set(xs))\<close>: the elements in order of first insertion. A set compares
  strings, numbers, booleans and \<^verbatim>\<open>null\<close> by value, and arrays and objects by identity;
  the arrays and objects of the parsed replies are all different ones.
\<close>

fun primitive :: "json \<Rightarrow> bool" where
  "primitive (JArr xs) = False"
| "primitive (JObj ms) = False"
| "primitive v = True"

definition set_insert :: "json list \<Rightarrow> json \<Rightarrow> json list" where
  "set_insert acc x = (if primitive x \<and> x \<in> set acc then acc else acc @ [x])"

definition array_from_set :: "json list \<Rightarrow> json list" where
  "array_from_set xs = foldl set_insert [] xs"

definition allKeywords :: "ResultRow list \<Rightarrow> json list" where
  "allKeywords rs =
     array_from_set
       (concat (map row_keywords
          (filter (\<lambda>r. status r = Completed \<and> length (row_keywords r) > 0) rs)))"

text \<open>\<^verbatim>\<open>value.replace(/"/g, '""')\<close>\<close>

definition double_quotes :: "string \<Rightarrow> string" where
  "double_quotes v = concat (map (\<lambda>c. if c = dquote then [dquote, dquote] else [c]) v)"

definition quoted :: "string \<Rightarrow> string" where
  "quoted v = [dquote] @ v @ [dquote]"

definition status_name :: "row_status \<Rightarrow> string" where
  "status_name st =
     (case st of Pending \<Rightarrow> ''pending'' | Processing \<Rightarrow> ''processing''
      | Completed \<Rightarrow> ''completed'' | Error \<Rightarrow> ''error'')"

text \<open>
  \<^verbatim>\<open>result.status === 'error' ? `Error: ${result.error}` : result.status\<close>; an absent
  \<open>error\<close> member is interpolated as \<^verbatim>\<open>undefined\<close>.
\<close>

definition status_text :: "ResultRow \<Rightarrow> string" where
  "status_text r =
     (if status r = Error
      then ''Error: '' @ (case error r of Some m \<Rightarrow> m | None \<Rightarrow> ''undefined'')
      else status_name (status r))"

text \<open>
  The text of an array element inside \<^verbatim>\<open>join\<close>: empty for \<^verbatim>\<open>null\<close>, and the result of
  \<^verbatim>\<open>String\<close> for the others.
\<close>

fun js_string :: "json \<Rightarrow> string" where
  "js_string JNull = []"
| "js_string (JBool b) = (if b then ''true'' else ''false'')"
| "js_string (JNum n) = n"
| "js_string (JStr s) = s"
| "js_string (JArr xs) = join [comma] (map js_string xs)"
| "js_string (JObj ms) = ''[object Object]''"

datatype js_error = TypeError

text \<open>
  \<^verbatim>\<open>`"${(row[h] || '').replace(/"/g, '""')}"`\<close>: a value inherited from
  \<^verbatim>\<open>Object.prototype\<close> is an object or a function, which has no \<^verbatim>\<open>replace\<close>.
\<close>

definition original_value :: "CSVRow \<Rightarrow> string \<Rightarrow> js_error + string" where
  "original_value row h =
     (case row_lookup row h of
        Str v \<Rightarrow> Inr (quoted (double_quotes v))
      | Undefined \<Rightarrow> Inr (quoted [])
      | Inherited \<Rightarrow> Inl TypeError)"

text \<open>One exported data row.\<close>

definition export_row :: "string list \<Rightarrow> CSVRow \<Rightarrow> ResultRow \<Rightarrow> js_error + string" where
  "export_row hs row r =
     (if list_all (\<lambda>h. original_value row h \<noteq> Inl TypeError) hs
      then Inr (join [comma]
        (map (\<lambda>h. case original_value row h of Inr v \<Rightarrow> v | Inl e \<Rightarrow> []) hs @
         [quoted (join ''; '' (map js_string (row_keywords r))), quoted (status_text r)]))
      else Inl TypeError)"

definition export_header :: "string list \<Rightarrow> string" where
  "export_header hs = join [comma] (hs @ [''Keywords'', ''Status''])"

text \<open>
  \<^verbatim>\<open>handleDownload\<close> offers the text \<open>csvContent\<close> under the name \<open>download_name\<close>, or
  raises the \<^verbatim>\<open>TypeError\<close> of \<^verbatim>\<open>result.keywords\<close> when a row has no entry in
  \<open>results\<close>, or that of an inherited value.
\<close>

definition csvContent :: "state \<Rightarrow> js_error + string" where
  "csvContent s =
     (if length (results s) < length (rows (csvData s)) then Inl TypeError
      else
        (let lines = map (\<lambda>(row, r). export_row (headers (csvData s)) row r)
                       (zip (rows (csvData s)) (results s))
         in if list_all (\<lambda>l. l \<noteq> Inl TypeError) lines
            then Inr (join [newline]
              (export_header (headers (csvData s)) #
               map (\<lambda>l. case l of Inr v \<Rightarrow> v | Inl e \<Rightarrow> []) lines))
            else Inl TypeError))"

text \<open>\<^verbatim>\<open>`keywords_${file?.name || 'results.csv'}`\<close>\<close>

definition download_name :: "state \<Rightarrow> string" where
  "download_name s =
     ''keywords_'' @
     (case selected_file s of
        None \<Rightarrow> ''results.csv''
      | Some f \<Rightarrow> (if file_name f = [] then ''results.csv'' else file_name f))"

definition handleDownload :: "state \<Rightarrow> js_error + string \<times> string" where
  "handleDownload s =
     (case csvContent s of Inl e \<Rightarrow> Inl e | Inr c \<Rightarrow> Inr (download_name s, c))"

section \<open>Notions used in the statements\<close>

text \<open>
  A value of a data line that the quote-aware split keeps whole: it holds an even number
  of double quotes, and each of its commas is followed, inside the value, by an odd
  number of them.
\<close>

fun commas_enclosed :: "string \<Rightarrow> bool" where
  "commas_enclosed [] = True"
| "commas_enclosed (c # cs) =
     ((c \<noteq> comma \<or> odd (count_list cs dquote)) \<and> commas_enclosed cs)"

definition field_ok :: "string \<Rightarrow> bool" where
  "field_ok f = (even (count_list f dquote) \<and> commas_enclosed f)"

text \<open>
  A list of words none of which is empty or begins another one, and a list of words none
  of which begins with the character \<open>c\<close>.
\<close>

definition prefix_free :: "string list \<Rightarrow> bool" where
  "prefix_free ws =
     list_all (\<lambda>w. w \<noteq> [] \<and> list_all (\<lambda>v. take (length v) w \<noteq> v \<or> v = w) ws) ws"

definition none_starts_with :: "char \<Rightarrow> string list \<Rightarrow> bool" where
  "none_starts_with c ws = list_all (\<lambda>w. w \<noteq> [] \<and> hd w \<noteq> c) ws"

text \<open>A record without the column \<open>k\<close>.\<close>

definition remove_column :: "string \<Rightarrow> CSVRow \<Rightarrow> CSVRow" where
  "remove_column k row = filter (\<lambda>e. fst e \<noteq> k) row"

text \<open>A field wrapped in double quotes.\<close>

definition wrapped :: "string \<Rightarrow> bool" where
  "wrapped f = (2 \<le> length f \<and> hd f = dquote \<and> last f = dquote)"

text \<open>
  Standard CSV escaping, read backwards: inside a quoted field a pair of double quotes
  stands for one double quote, and a single double quote does not occur.
\<close>

fun unescape :: "string \<Rightarrow> string option" where
  "unescape [] = Some []"
| "unescape [c] = (if c = dquote then None else Some [c])"
| "unescape (c # d # ds) =
     (if c = dquote
      then (if d = dquote then map_option ((#) dquote) (unescape ds) else None)
      else map_option ((#) c) (unescape (d # ds)))"

definition unquote_field :: "string \<Rightarrow> string option" where
  "unquote_field f = (if wrapped f then unescape (butlast (tl f)) else None)"

text \<open>A row outcome in a terminal state.\<close>

definition terminal :: "ResultRow \<Rightarrow> bool" where
  "terminal r = (status r = Completed \<or> status r = Error)"

text \<open>
  A reply that delivers no keywords: the call throws, the text does not parse, the
  parsed value counts as false, or its \<^verbatim>\<open>keywords\<close> is missing or counts as false; and
  the message of that failure.
\<close>

definition is_failure :: "api_reply \<Rightarrow> bool" where
  "is_failure reply =
     (case reply of
        CallThrows t \<Rightarrow> True
      | ParseThrows m \<Rightarrow> True
      | Parsed v \<Rightarrow>
          (\<not> truthy v \<or> (case keywords_member v of None \<Rightarrow> True | Some k \<Rightarrow> \<not> truthy k)))"

definition failure_message :: "api_reply \<Rightarrow> string" where
  "failure_message reply =
     (case reply of
        CallThrows (ErrorInstance m) \<Rightarrow> m
      | CallThrows OtherThrown \<Rightarrow> ''Unknown error''
      | ParseThrows m \<Rightarrow> m
      | Parsed v \<Rightarrow> ''Could not parse keywords from the response.'')"

text \<open>The states the component can reach from its first render.\<close>

definition reachable :: "state \<Rightarrow> bool" where
  "reachable s = (\<exists>evs. s = exec init_state evs)"

text \<open>
  The events of a run on a loaded table: the start/pause/resume button and the arrival
  of replies; and the arrival of replies alone.
\<close>

fun run_event :: "event \<Rightarrow> bool" where
  "run_event Toggle = True"
| "run_event (Settle j reply) = True"
| "run_event e = False"

fun is_settle :: "event \<Rightarrow> bool" where
  "is_settle (Settle j reply) = True"
| "is_settle e = False"

text \<open>
  The state after a table has been selected and read in a freshly mounted component.
\<close>

definition load :: "csv_file \<Rightarrow> state" where
  "load f = exec init_state [SelectFile (Some f), ReaderLoaded 0]"

text \<open>A full run: start, then the reply to each call in turn, no other event.\<close>

definition full_run :: "csv_file \<Rightarrow> api_reply list \<Rightarrow> state" where
  "full_run f replies =
     exec (load f) (Toggle # map (\<lambda>(j, reply). Settle j reply) (zip [0..<length replies] replies))"

text \<open>A file of type \<^verbatim>\<open>text/csv\<close> with the given text.\<close>

definition table_file :: "string \<Rightarrow> csv_file" where
  "table_file text = \<lparr>file_name = ''table.csv'', file_type = ''text/csv'', file_text = text\<rparr>"

text \<open>
  Example tables: one column \<open>a\<close> with the rows \<open>x\<close>, \<open>y\<close> (and \<open>z\<close>), and a file with a
  header line only. \<open>started\<close> is the state after the two-row table has been loaded and
  start has been pressed. \<open>keywords_reply k\<close> is a reply whose text parses to an object
  with the member \<^verbatim>\<open>keywords\<close> of value \<open>k\<close>.
\<close>

definition two_rows :: csv_file where
  "two_rows = table_file (''a'' @ [newline] @ ''x'' @ [newline] @ ''y'')"

definition three_rows :: csv_file where
  "three_rows = table_file (''a'' @ [newline] @ ''x'' @ [newline] @ ''y'' @ [newline] @ ''z'')"

definition header_only :: csv_file where
  "header_only = table_file ''fileName,title,content''"

definition started :: state where
  "started = toggleProcessing (load two_rows)"

definition keywords_reply :: "json \<Rightarrow> api_reply" where
  "keywords_reply k = Parsed (JObj [(''keywords'', k)])"

text \<open>
  The state of an uninterrupted run on the table \<open>hs\<close>, \<open>rs\<close> of the file \<open>f\<close> in which the
  rows before the cursor have the outcomes \<open>outs\<close>: while rows remain, the row at the
  cursor is \<open>processing\<close> with its call in flight and the later rows are \<open>pending\<close>;
  the calls of the earlier rows have settled, their flags set by the cleanup that ran
  when the cursor moved on.
\<close>

definition processing_row :: ResultRow where
  "processing_row = \<lparr>status = Processing, row_keywords = [], error = None\<rparr>"

definition finished_call :: "CSVRow list \<Rightarrow> nat \<Rightarrow> call" where
  "finished_call rs i =
     \<lparr>idx = i, request = userPrompt (rs ! i), isCancelled = True, settled = True\<rparr>"

definition active_call :: "CSVRow list \<Rightarrow> nat \<Rightarrow> call" where
  "active_call rs i =
     \<lparr>idx = i, request = userPrompt (rs ! i), isCancelled = False, settled = False\<rparr>"

definition run_state :: "csv_file \<Rightarrow> string list \<Rightarrow> CSVRow list \<Rightarrow> ResultRow list \<Rightarrow> state" where
  "run_state f hs rs outs =
     \<lparr>selected_file = Some f,
      csvData = \<lparr>headers = hs, rows = rs\<rparr>,
      results = outs @
        (if length outs < length rs
         then processing_row # replicate (length rs - Suc (length outs)) pending_row else []),
      run_status = (if length outs < length rs then Running else Done),
      currentIndex = length outs,
      ui_error = None,
      reading = [],
      calls = map (finished_call rs) [0..<length outs] @
        (if length outs < length rs then [active_call rs (length outs)] else []),
      cleanup = (if length outs < length rs then Some (length outs) else None),
      out_of_range = False,
      unmounted = False\<rparr>"

text \<open>
  A call is live while it has neither settled nor been cancelled. The invariant of the
  scheduling loop: the outcome array is as long as the table and nothing was stored that
  it cannot hold; a live call is the one the pending cleanup function would cancel; that
  call belongs to the row at the cursor, which lies inside the table and is
  \<open>processing\<close>, and the run is \<open>running\<close>; no other row is \<open>processing\<close>; and a
  \<open>running\<close> run has such a call.
\<close>

definition live :: "call \<Rightarrow> bool" where
  "live c = (\<not> settled c \<and> \<not> isCancelled c)"

definition inv :: "state \<Rightarrow> bool" where
  "inv s =
     (length (results s) = length (rows (csvData s)) \<and>
      \<not> out_of_range s \<and>
      (\<forall>j < length (calls s). live (calls s ! j) \<longrightarrow> cleanup s = Some j) \<and>
      (\<forall>j. cleanup s = Some j \<longrightarrow>
         j < length (calls s) \<and> live (calls s ! j) \<and> idx (calls s ! j) = currentIndex s \<and>
         currentIndex s < length (rows (csvData s)) \<and> run_status s = Running \<and>
         status (results s ! currentIndex s) = Processing) \<and>
      (\<forall>i < length (results s). status (results s ! i) = Processing \<longrightarrow> i = currentIndex s) \<and>
      (run_status s = Running \<longrightarrow> cleanup s \<noteq> None))"

text \<open>
  The run and the view: a \<open>running\<close> run has a selected file, so that its table is
  shown, and a removed component is \<open>idle\<close>.
\<close>

definition view_inv :: "state \<Rightarrow> bool" where
  "view_inv s =
     ((run_status s = Running \<longrightarrow> selected_file s \<noteq> None) \<and>
      (unmounted s \<longrightarrow> run_status s = Idle))"

text \<open>
  The shape of the outcomes during a run on a table of \<open>R\<close> rows: terminal before the
  cursor, \<open>pending\<close> after it.
\<close>

definition run_shape :: "nat \<Rightarrow> state \<Rightarrow> bool" where
  "run_shape R s =
     (length (results s) = R \<and> length (rows (csvData s)) = R \<and> currentIndex s \<le> R \<and>
      (\<forall>i < currentIndex s. terminal (results s ! i)) \<and>
      (\<forall>i. currentIndex s < i \<and> i < R \<longrightarrow> status (results s ! i) = Pending))"

section \<open>The deduplicated keyword view\<close>

lemma set_foldl_set_insert: "set (foldl set_insert acc xs) = set acc \<union> set xs"
  by (induction xs arbitrary: acc) (auto simp: set_insert_def)

lemma set_array_from_set: "set (array_from_set xs) = set xs"
  by (simp add: array_from_set_def set_foldl_set_insert)

text \<open>A string, number, boolean or \<^verbatim>\<open>null\<close> is never inserted twice.\<close>

lemma count_foldl_set_insert:
  "primitive x \<Longrightarrow> count_list acc x = (if x \<in> set acc then 1 else 0) \<Longrightarrow>
   count_list (foldl set_insert acc xs) x = (if x \<in> set acc \<union> set xs then 1 else 0)"
proof (induction xs arbitrary: acc)
  case Nil
  then show ?case by simp
next
  case (Cons y ys)
  have "count_list (set_insert acc y) x = (if x \<in> set (set_insert acc y) then 1 else 0)"
    using Cons.prems by (auto simp: set_insert_def)
  from Cons.IH[OF Cons.prems(1) this] show ?case
    by (auto simp: set_insert_def)
qed

lemma count_array_from_set:
  "primitive x \<Longrightarrow> count_list (array_from_set xs) x = (if x \<in> set xs then 1 else 0)"
  using count_foldl_set_insert[of x "[]" xs] by (simp add: array_from_set_def)

text \<open>
  Claim C6. Whatever the outcomes are, hence at every reachable state, a string occurs in
  the deduplicated keyword view exactly once when it is a keyword of at least one
  \<open>completed\<close> outcome, and does not occur in it otherwise; and the values in the view
  are those that occur in a \<open>completed\<close> outcome.
\<close>

theorem allKeywords_exact:
  "count_list (allKeywords (results s)) (JStr k) =
     (if (\<exists>r. r \<in> set (results s) \<and> status r = Completed \<and> JStr k \<in> set (row_keywords r))
      then 1 else 0) \<and>
   set (allKeywords (results s)) =
     {x. \<exists>r. r \<in> set (results s) \<and> status r = Completed \<and> x \<in> set (row_keywords r)}"
proof -
  have m: "set (allKeywords (results s)) =
     {x. \<exists>r. r \<in> set (results s) \<and> status r = Completed \<and> x \<in> set (row_keywords r)}"
    unfolding allKeywords_def set_array_from_set by auto
  have "count_list (allKeywords (results s)) (JStr k) =
          (if JStr k \<in> set (allKeywords (results s)) then 1 else 0)"
    unfolding allKeywords_def by (simp add: count_array_from_set set_array_from_set)
  then show ?thesis
    unfolding m by simp
qed

section \<open>Trimming\<close>

lemma set_strip_start: "set (strip_start ws s) \<subseteq> set s"
proof (induction ws s rule: strip_start.induct)
  case (1 ws s)
  show ?case
  proof (cases "find (\<lambda>w. w \<noteq> [] \<and> take (length w) s = w) ws")
    case None
    then show ?thesis by (simp add: strip_start.simps)
  next
    case (Some w)
    have "set (strip_start ws (drop (length w) s)) \<subseteq> set (drop (length w) s)"
      using 1 Some by simp
    then have "set (strip_start ws (drop (length w) s)) \<subseteq> set s"
      using set_drop_subset by fastforce
    then show ?thesis
      using Some by (subst strip_start.simps) simp
  qed
qed

lemma set_trim: "set (trim s) \<subseteq> set s"
proof -
  have "set (trim s) = set (strip_start (map rev whitespace) (rev (strip_start whitespace s)))"
    by (simp add: trim_def)
  also have "\<dots> \<subseteq> set (rev (strip_start whitespace s))"
    by (rule set_strip_start)
  also have "\<dots> = set (strip_start whitespace s)"
    by simp
  also have "\<dots> \<subseteq> set s"
    by (rule set_strip_start)
  finally show ?thesis .
qed

text \<open>The equations by which \<open>strip_start\<close> is evaluated on a given string.\<close>

lemma strip_start_Nil: "strip_start ws [] = []"
  by (subst strip_start.simps) (auto split: option.splits simp: find_Some_iff)

lemma strip_start_Cons:
  "strip_start ws (c # cs) =
     (case find (\<lambda>w. w \<noteq> [] \<and> take (length w) (c # cs) = w) ws of
        None \<Rightarrow> c # cs
      | Some w \<Rightarrow> strip_start ws (drop (length w) (c # cs)))"
  by (rule strip_start.simps)

text \<open>A leading word of the list is removed.\<close>

lemma strip_start_word:
  assumes "prefix_free ws" and "w \<in> set ws"
  shows "strip_start ws (w @ t) = strip_start ws t"
proof -
  let ?P = "\<lambda>v. v \<noteq> [] \<and> take (length v) (w @ t) = v"
  have w: "w \<noteq> []"
    using assms by (auto simp: prefix_free_def list_all_iff)
  have "?P w" using w by simp
  then have "find ?P ws \<noteq> None"
    using assms(2) by (auto simp: find_None_iff)
  then obtain v where f: "find ?P ws = Some v" by auto
  have v: "v \<in> set ws" and t: "take (length v) (w @ t) = v"
    using f by (auto simp: find_Some_iff)
  have "v = w"
  proof (cases "length v \<le> length w")
    case True
    then have "take (length v) w = v" using t by simp
    moreover have "take (length v) w \<noteq> v \<or> v = w"
      using assms v by (auto simp: prefix_free_def list_all_iff)
    ultimately show ?thesis by simp
  next
    case False
    have "take (length w) v = take (length w) (take (length v) (w @ t))"
      using t by simp
    also have "\<dots> = w" using False by (simp add: min_def)
    finally have "take (length w) v = w" .
    moreover have "take (length w) v \<noteq> w \<or> w = v"
      using assms v by (auto simp: prefix_free_def list_all_iff)
    ultimately show ?thesis by simp
  qed
  then show ?thesis
    using f by (subst strip_start.simps) simp
qed

lemma strip_start_words:
  "prefix_free ws \<Longrightarrow> set p \<subseteq> set ws \<Longrightarrow> strip_start ws (concat p @ t) = strip_start ws t"
  by (induction p) (simp_all add: strip_start_word)

text \<open>Nothing is removed in front of a character that begins no word of the list.\<close>

lemma strip_start_stop:
  assumes "none_starts_with c ws"
  shows "strip_start ws (c # t) = c # t"
proof -
  have "find (\<lambda>w. w \<noteq> [] \<and> take (length w) (c # t) = w) ws = None"
  proof -
    have "\<not> (w \<noteq> [] \<and> take (length w) (c # t) = w)" if "w \<in> set ws" for w
    proof -
      have "w \<noteq> []" and "hd w \<noteq> c"
        using assms that by (auto simp: none_starts_with_def list_all_iff)
      then show ?thesis by (cases w) auto
    qed
    then show ?thesis by (auto simp: find_None_iff)
  qed
  then show ?thesis by (subst strip_start.simps) simp
qed

lemma whitespace_prefix_free: "prefix_free whitespace"
  by (simp add: prefix_free_def whitespace_def)

lemma whitespace_rev_prefix_free: "prefix_free (map rev whitespace)"
  by (simp add: prefix_free_def whitespace_def)

lemma whitespace_no_quote: "none_starts_with dquote whitespace"
  by (simp add: none_starts_with_def whitespace_def)

lemma whitespace_rev_no_quote: "none_starts_with dquote (map rev whitespace)"
  by (simp add: none_starts_with_def whitespace_def)

text \<open>
  White space in front of and behind a text in double quotes is removed, whatever the
  text is.
\<close>

lemma trim_padded:
  assumes "set p1 \<subseteq> set whitespace" and "set p2 \<subseteq> set whitespace"
  shows "trim (concat p1 @ [dquote] @ b @ [dquote] @ concat p2) = [dquote] @ b @ [dquote]"
proof -
  have a: "strip_start whitespace (concat p1 @ [dquote] @ b @ [dquote] @ concat p2) =
           [dquote] @ b @ [dquote] @ concat p2"
    using strip_start_words[OF whitespace_prefix_free assms(1)]
      strip_start_stop[OF whitespace_no_quote] by simp
  have r: "rev ([dquote] @ b @ [dquote] @ concat p2) =
           concat (map rev (rev p2)) @ dquote # rev b @ [dquote]"
    by (simp add: rev_concat)
  have s: "set (map rev (rev p2)) \<subseteq> set (map rev whitespace)"
    using assms(2) by auto
  have "strip_start (map rev whitespace) (concat (map rev (rev p2)) @ dquote # rev b @ [dquote]) =
        dquote # rev b @ [dquote]"
    using strip_start_words[OF whitespace_rev_prefix_free s]
      strip_start_stop[OF whitespace_rev_no_quote] by simp
  then show ?thesis
    unfolding trim_def a r by simp
qed

text \<open>
  Each kind of white space is removed on either side; a letter whose encoding ends in
  the byte \<open>A0\<close> and a zero-width space (U+200B) are kept.
\<close>

lemma trim_white_space:
  "trim ([CHR 0x09, CHR 0x0A, CHR 0x0B, CHR 0x0C, CHR 0x0D, CHR 0x20, CHR 0xC2, CHR 0xA0,
          CHR 0xE1, CHR 0x9A, CHR 0x80, CHR 0xE2, CHR 0x80, CHR 0x80, CHR 0xE2, CHR 0x80, CHR 0x81,
          CHR 0xE2, CHR 0x80, CHR 0x82, CHR 0xE2, CHR 0x80, CHR 0x83, CHR 0xE2, CHR 0x80, CHR 0x84,
          CHR 0xE2, CHR 0x80, CHR 0x85, CHR 0xE2, CHR 0x80, CHR 0x86, CHR 0xE2, CHR 0x80, CHR 0x87,
          CHR 0xE2, CHR 0x80, CHR 0x88, CHR 0xE2, CHR 0x80, CHR 0x89, CHR 0xE2, CHR 0x80, CHR 0x8A,
          CHR 0xE2, CHR 0x80, CHR 0xA8, CHR 0xE2, CHR 0x80, CHR 0xA9, CHR 0xE2, CHR 0x80, CHR 0xAF,
          CHR 0xE2, CHR 0x81, CHR 0x9F, CHR 0xE3, CHR 0x80, CHR 0x80, CHR 0xEF, CHR 0xBB, CHR 0xBF] @
         ''a b'' @
         [CHR 0xEF, CHR 0xBB, CHR 0xBF, CHR 0xE3, CHR 0x80, CHR 0x80, CHR 0xE2, CHR 0x81, CHR 0x9F,
          CHR 0xE2, CHR 0x80, CHR 0xAF, CHR 0xE2, CHR 0x80, CHR 0xA9, CHR 0xE2, CHR 0x80, CHR 0xA8,
          CHR 0xE2, CHR 0x80, CHR 0x8A, CHR 0xE2, CHR 0x80, CHR 0x89, CHR 0xE2, CHR 0x80, CHR 0x88,
          CHR 0xE2, CHR 0x80, CHR 0x87, CHR 0xE2, CHR 0x80, CHR 0x86, CHR 0xE2, CHR 0x80, CHR 0x85,
          CHR 0xE2, CHR 0x80, CHR 0x84, CHR 0xE2, CHR 0x80, CHR 0x83, CHR 0xE2, CHR 0x80, CHR 0x82,
          CHR 0xE2, CHR 0x80, CHR 0x81, CHR 0xE2, CHR 0x80, CHR 0x80, CHR 0xE1, CHR 0x9A, CHR 0x80,
          CHR 0xC2, CHR 0xA0, CHR 0x20, CHR 0x0D, CHR 0x0C, CHR 0x0B, CHR 0x0A, CHR 0x09]) = ''a b''"
  "trim ([CHR 0xC3, CHR 0xA0] @ ''a'' @ [CHR 0xE2, CHR 0x80, CHR 0x8B]) =
     [CHR 0xC3, CHR 0xA0] @ ''a'' @ [CHR 0xE2, CHR 0x80, CHR 0x8B]"
  by (simp_all add: trim_def strip_start_Nil strip_start_Cons whitespace_def)

section \<open>The header line\<close>

lemmas parse_defs = parseCSV_def csv_lines_def header_fields_def split_on_def trim_def
  strip_start_Nil strip_start_Cons whitespace_def Let_def parse_row_def split_row_def quote_aware_sep_def
  value_at_def strip_quotes_def row_assign_def

lemma split_on_no_sep: "f \<in> set (split_on d s) \<Longrightarrow> d \<notin> set f"
  unfolding split_on_def
proof (induction s arbitrary: f)
  case Nil
  then show ?case by simp
next
  case (Cons c cs)
  then show ?case
    by (cases "split_when (\<lambda>c rest. c = d) cs") (auto split: if_splits)
qed

text \<open>No header name holds a comma: the header line is cut at every comma.\<close>

lemma header_no_comma: "h \<in> set (headers (parseCSV text)) \<Longrightarrow> comma \<notin> set h"
  using set_trim split_on_no_sep
  by (fastforce simp: parseCSV_def Let_def header_fields_def split: if_splits)

text \<open>
  Claim C4. The header line \<^verbatim>\<open>"a,b",c\<close> over the data line \<^verbatim>\<open>"x,y",z\<close>: the quoted header
  is cut at its comma and keeps its quotes, which gives three header names for two
  values, so that the values land under the names \<^verbatim>\<open>"a\<close> and \<^verbatim>\<open>b"\<close> and the column
  \<open>c\<close> is empty.
\<close>

theorem parseCSV_quoted_header:
  "parseCSV (''\"a,b\",c'' @ [newline] @ ''\"x,y\",z'') =
     \<lparr>headers = [[dquote, CHR ''a''], [CHR ''b'', dquote], ''c''],
      rows = [[([dquote, CHR ''a''], ''x,y''), ([CHR ''b'', dquote], ''z''), (''c'', [])]]\<rparr>"
  by (simp add: parse_defs)

text \<open>
  The other part of the claim holds: white space around a header name is removed, here
  blanks, a tabulator and a no-break space.
\<close>

lemma header_fields_trimmed:
  "header_fields ('' a ,'' @ [CHR 0x09] @ ''b'' @ [CHR 0xC2, CHR 0xA0]) = [''a'', ''b'']"
  by (simp add: parse_defs)

section \<open>Quoted values in data lines\<close>

lemma split_row_whole: "commas_enclosed f \<Longrightarrow> split_row f = [f]"
  unfolding split_row_def
  by (induction f) (auto simp: quote_aware_sep_def)

lemma split_row_first:
  "commas_enclosed f \<Longrightarrow> even (count_list rest dquote) \<Longrightarrow>
   split_row (f @ comma # rest) = f # split_row rest"
  unfolding split_row_def
  by (induction f) (auto simp: quote_aware_sep_def)

lemma count_list_app: "count_list (xs @ ys) x = count_list xs x + count_list ys x"
  by (induction xs) auto

lemma join_Cons: "join sep (x # xs) = (if xs = [] then x else x @ sep @ join sep xs)"
  by (cases xs) auto

lemma even_quotes_join:
  "(\<And>f. f \<in> set fs \<Longrightarrow> field_ok f) \<Longrightarrow> even (count_list (join [comma] fs) dquote)"
  by (induction fs) (auto simp: field_ok_def count_list_app join_Cons)

text \<open>The quote-aware split gives back the values a line was joined from.\<close>

lemma split_row_join:
  "fs \<noteq> [] \<Longrightarrow> (\<And>f. f \<in> set fs \<Longrightarrow> field_ok f) \<Longrightarrow> split_row (join [comma] fs) = fs"
proof (induction fs)
  case Nil
  then show ?case by simp
next
  case (Cons x xs)
  have x: "commas_enclosed x" using Cons.prems by (simp add: field_ok_def)
  show ?case
  proof (cases "xs = []")
    case True
    then show ?thesis using x by (simp add: split_row_whole)
  next
    case False
    have "even (count_list (join [comma] xs) dquote)"
      using Cons.prems by (intro even_quotes_join) auto
    then have "split_row (x @ comma # join [comma] xs) = x # split_row (join [comma] xs)"
      using x by (intro split_row_first)
    then show ?thesis using False Cons by (simp add: join_Cons)
  qed
qed

text \<open>
  Values of this kind: an unquoted value without comma and quote, and a quote-free text
  wrapped in double quotes.
\<close>

lemma field_ok_plain: "comma \<notin> set f \<Longrightarrow> dquote \<notin> set f \<Longrightarrow> field_ok f"
  unfolding field_ok_def by (induction f) auto

lemma commas_enclosed_append_quote: "dquote \<notin> set b \<Longrightarrow> commas_enclosed (b @ [dquote])"
  by (induction b) (auto simp: count_list_app)

lemma field_ok_quoted: "dquote \<notin> set b \<Longrightarrow> field_ok (quoted b)"
  unfolding field_ok_def quoted_def
  by (auto simp: count_list_app commas_enclosed_append_quote)

text \<open>So is the standard escaping of any value, wrapped in double quotes.\<close>

lemma count_double_quotes: "count_list (double_quotes v) dquote = 2 * count_list v dquote"
  by (induction v) (auto simp: double_quotes_def)

lemma commas_enclosed_escaped: "commas_enclosed (double_quotes v @ [dquote])"
proof (induction v)
  case Nil
  then show ?case by (simp add: double_quotes_def)
next
  case (Cons c v)
  have "odd (count_list (double_quotes v @ [dquote]) dquote)"
    by (simp add: count_list_app count_double_quotes)
  then show ?case using Cons by (auto simp: double_quotes_def)
qed

lemma field_ok_escaped: "field_ok (quoted (double_quotes v))"
  unfolding field_ok_def quoted_def
  by (simp add: count_list_app count_double_quotes commas_enclosed_escaped)

text \<open>A quoted value, with white space around it or not, is stored without its quotes.\<close>

lemma strip_padded:
  assumes "set p1 \<subseteq> set whitespace" and "set p2 \<subseteq> set whitespace"
  shows "strip_quotes (trim (concat p1 @ quoted b @ concat p2)) = b"
proof -
  have "trim (concat p1 @ quoted b @ concat p2) = [dquote] @ b @ [dquote]"
    using trim_padded[OF assms, of b] by (simp add: quoted_def)
  then show ?thesis by (simp add: strip_quotes_def)
qed

text \<open>
  The record holds, under a header name other than \<^verbatim>\<open>__proto__\<close> that no later column
  repeats, the value assigned for that column.
\<close>

lemma map_of_row_assign:
  "k \<noteq> ''__proto__'' \<Longrightarrow>
   map_of (row_assign h v row) k = (if h = k then Some v else map_of row k)"
  by (simp add: row_assign_def update_conv')

lemma map_of_assigned:
  "i < length hs \<Longrightarrow> hs ! i \<noteq> ''__proto__'' \<Longrightarrow>
   (\<And>j. i < j \<Longrightarrow> j < length hs \<Longrightarrow> hs ! j \<noteq> hs ! i) \<Longrightarrow>
   map_of (foldl (\<lambda>row (header, i). row_assign header (g i) row) [] (zip hs [0..<length hs]))
     (hs ! i) = Some (g i)"
proof (induction hs rule: rev_induct)
  case Nil
  then show ?case by simp
next
  case (snoc h hs)
  show ?case
  proof (cases "i = length hs")
    case True
    then show ?thesis using snoc.prems(2) by (simp add: map_of_row_assign)
  next
    case False
    then have i: "i < length hs" using snoc.prems(1) by simp
    have p: "hs ! i \<noteq> ''__proto__''" using snoc.prems(2) i by (simp add: nth_append)
    have neq: "h \<noteq> hs ! i" using snoc.prems(3)[of "length hs"] i by (simp add: nth_append)
    have "map_of (foldl (\<lambda>row (header, i). row_assign header (g i) row) []
            (zip hs [0..<length hs])) (hs ! i) = Some (g i)"
    proof (rule snoc.IH[OF i p])
      fix j assume "i < j" "j < length hs"
      then show "hs ! j \<noteq> hs ! i" using snoc.prems(3)[of j] by (simp add: nth_append)
    qed
    then show ?thesis using i neq p by (simp add: map_of_row_assign nth_append)
  qed
qed

lemma parse_row_value:
  assumes "i < length hs" and "hs ! i \<noteq> ''__proto__''"
    and "\<And>j. i < j \<Longrightarrow> j < length hs \<Longrightarrow> hs ! j \<noteq> hs ! i"
  shows "row_lookup (parse_row hs line) (hs ! i) =
           Str (strip_quotes (trim (value_at (split_row line) i)))"
  unfolding parse_row_def Let_def row_lookup_def
  using map_of_assigned[OF assms, where g="\<lambda>i. strip_quotes (trim (value_at (split_row line) i))"]
  by simp

text \<open>
  Claim C7, as amended. Let the text have the header line \<open>hl\<close> and the data
  lines \<open>ls\<close>, and let data line \<open>r\<close> be the values \<open>fs\<close> joined by commas, each value with
  balanced double quotes and with its commas enclosed in them. If value \<open>i\<close> is \<open>body\<close>
  wrapped in double quotes (\<open>body\<close> may hold commas), with or without white space around
  the quotes, and column \<open>i\<close> exists, is not named \<^verbatim>\<open>__proto__\<close> and no later column
  repeats its name, then record \<open>r\<close> holds exactly \<open>body\<close> under the name of column \<open>i\<close>:
  the value is not cut at its commas and its surrounding quotes are gone.
\<close>

theorem parseCSV_quoted_value:
  assumes "csv_lines text = hl # ls"
    and "r < length ls"
    and "ls ! r = join [comma] fs"
    and "\<forall>f \<in> set fs. field_ok f"
    and "i < length fs"
    and "fs ! i = concat p1 @ quoted body @ concat p2"
    and "set p1 \<subseteq> set whitespace" and "set p2 \<subseteq> set whitespace"
    and "i < length (header_fields hl)"
    and "header_fields hl ! i \<noteq> ''__proto__''"
    and "\<forall>j. i < j \<and> j < length (header_fields hl) \<longrightarrow>
           header_fields hl ! j \<noteq> header_fields hl ! i"
  shows "headers (parseCSV text) = header_fields hl \<and>
         length (rows (parseCSV text)) = length ls \<and>
         row_lookup (rows (parseCSV text) ! r) (header_fields hl ! i) = Str body"
proof -
  have two: "\<not> length (csv_lines text) < 2" using assms(1,2) by (cases ls) auto
  have p: "parseCSV text =
             \<lparr>headers = header_fields hl, rows = map (parse_row (header_fields hl)) ls\<rparr>"
    using two assms(1) by (simp add: parseCSV_def Let_def)
  have "fs \<noteq> []" using assms(5) by auto
  then have sp: "split_row (ls ! r) = fs"
    using assms(3,4) by (simp add: split_row_join)
  have "row_lookup (parse_row (header_fields hl) (ls ! r)) (header_fields hl ! i)
        = Str (strip_quotes (trim (value_at (split_row (ls ! r)) i)))"
    using assms(9,10,11) by (intro parse_row_value) auto
  also have "\<dots> = Str body"
    using sp assms(5,6) strip_padded[OF assms(7,8)] by (simp add: value_at_def)
  finally show ?thesis using p assms(2) by simp
qed

text \<open>
  The table with the header line \<^verbatim>\<open>name,company,size\<close> and a data line of the
  values \<open>1\<close>, \<^verbatim>\<open>"Acme, Inc."\<close> and \<open>5\<close>, where a no-break space stands in front of
  the quoted value and a tabulator behind it.
\<close>

theorem parseCSV_quoted_value_witness:
  "headers (parseCSV (''name,company,size'' @ [newline] @
      ''1,'' @ [CHR 0xC2, CHR 0xA0] @ ''\"Acme, Inc.\"'' @ [CHR 0x09] @ '',5'')) =
     [''name'', ''company'', ''size''] \<and>
   length (rows (parseCSV (''name,company,size'' @ [newline] @
      ''1,'' @ [CHR 0xC2, CHR 0xA0] @ ''\"Acme, Inc.\"'' @ [CHR 0x09] @ '',5''))) = 1 \<and>
   row_lookup (rows (parseCSV (''name,company,size'' @ [newline] @
      ''1,'' @ [CHR 0xC2, CHR 0xA0] @ ''\"Acme, Inc.\"'' @ [CHR 0x09] @ '',5'')) ! 0)
     ''company'' = Str ''Acme, Inc.''"
proof -
  let ?line = "''1,'' @ [CHR 0xC2, CHR 0xA0] @ ''\"Acme, Inc.\"'' @ [CHR 0x09] @ '',5''"
  let ?text = "''name,company,size'' @ [newline] @ ?line"
  let ?fs = "[''1'', concat [[CHR 0xC2, CHR 0xA0]] @ quoted ''Acme, Inc.'' @ concat [[CHR 0x09]], ''5'']"
  have l: "csv_lines ?text = ''name,company,size'' # [?line]"
    by (simp add: parse_defs)
  have h: "header_fields ''name,company,size'' = [''name'', ''company'', ''size'']"
    by (simp add: parse_defs)
  have j: "[?line] ! 0 = join [comma] ?fs"
    by (simp add: quoted_def)
  have ok: "\<forall>f \<in> set ?fs. field_ok f"
    by (simp add: field_ok_def quoted_def)
  have w: "set [[CHR 0xC2, CHR 0xA0]] \<subseteq> set whitespace" "set [[CHR 0x09]] \<subseteq> set whitespace"
    by (simp_all add: whitespace_def)
  have u: "\<forall>j. 1 < j \<and> j < length (header_fields ''name,company,size'') \<longrightarrow>
      header_fields ''name,company,size'' ! j \<noteq> header_fields ''name,company,size'' ! 1"
    by (auto simp: h less_Suc_eq)
  show ?thesis
    using parseCSV_quoted_value[OF l _ j ok _ _ w _ _ u, of "''Acme, Inc.''"]
    by (simp add: h)
qed

text \<open>
  Against claim C7 as stated. The data line \<^verbatim>\<open>"Acme, Inc.",5" pipe\<close> under the header
  line \<^verbatim>\<open>company,size\<close>: the double quote of the second value makes the number of
  double quotes after the first comma even, so the line is cut at the comma inside the
  quoted value and not at the one behind it, and the record holds \<^verbatim>\<open>"Acme\<close> as the
  company, the opening quote kept. Under a header \<^verbatim>\<open>__proto__\<close> nothing is stored, and
  the lookup gives the inherited object. Of two columns with one name (here \<open>a\<close>, and
  \<open>a\<close> followed by a no-break space, which is trimmed) the later one provides the
  value. A value beyond the last column is in no record.
\<close>

theorem parseCSV_quoted_value_cut:
  "parseCSV (''company,size'' @ [newline] @ ''\"Acme, Inc.\",5\" pipe'') =
     \<lparr>headers = [''company'', ''size''],
      rows = [[(''company'', [dquote] @ ''Acme''), (''size'', ''Inc.\",5\" pipe'')]]\<rparr> \<and>
   row_lookup (rows (parseCSV (''company,size'' @ [newline] @ ''\"Acme, Inc.\",5\" pipe'')) ! 0)
     ''company'' \<noteq> Str ''Acme, Inc.'' \<and>
   parseCSV (''__proto__,b'' @ [newline] @ ''\"Acme, Inc.\",z'') =
     \<lparr>headers = [''__proto__'', ''b''], rows = [[(''b'', ''z'')]]\<rparr> \<and>
   row_lookup [(''b'', ''z'')] ''__proto__'' = Inherited \<and>
   parseCSV (''a,a'' @ [CHR 0xC2, CHR 0xA0] @ [newline] @ ''\"Acme, Inc.\",z'') =
     \<lparr>headers = [''a'', ''a''], rows = [[(''a'', ''z'')]]\<rparr> \<and>
   parseCSV (''a'' @ [newline] @ ''1,\"Acme, Inc.\"'') =
     \<lparr>headers = [''a''], rows = [[(''a'', ''1'')]]\<rparr>"
  by (simp add: parse_defs row_lookup_def object_prototype_keys_def)

section \<open>Case variants of the reserved field names\<close>

lemma object_entries_remove:
  "object_entries (remove_column k row) = remove_column k (object_entries row)"
  unfolding object_entries_def remove_column_def
  by (simp add: filter_sort conj_commute)

lemma reserved_filter_remove:
  assumes "toLowerCase k \<in> set RESERVED_KEYS"
  shows "filter (\<lambda>e. toLowerCase (fst e) \<notin> set RESERVED_KEYS \<and> snd e \<noteq> []) (remove_column k al)
       = filter (\<lambda>e. toLowerCase (fst e) \<notin> set RESERVED_KEYS \<and> snd e \<noteq> []) al"
  unfolding remove_column_def using assms
  by (induction al) auto

lemma attributes_remove:
  "toLowerCase k \<in> set RESERVED_KEYS \<Longrightarrow> attributes (remove_column k row) = attributes row"
  by (simp add: attributes_def object_entries_remove reserved_filter_remove)

lemma map_of_remove: "k' \<noteq> k \<Longrightarrow> map_of (remove_column k row) k' = map_of row k'"
  unfolding remove_column_def
  by (induction row) auto

lemma row_lookup_remove: "k' \<noteq> k \<Longrightarrow> row_lookup (remove_column k row) k' = row_lookup row k'"
  by (simp add: row_lookup_def map_of_remove)

text \<open>
  Claim C10. A column whose name becomes \<open>title\<close> or \<open>content\<close> in lower case without
  being spelled that way (such as \<open>Title\<close>) contributes nothing to the request: the
  prompt is the one the record without that column gives, and the column is not among
  the attributes.
\<close>

theorem case_variant_dropped:
  assumes "toLowerCase k = ''title'' \<or> toLowerCase k = ''content''"
    and "k \<noteq> ''title''" and "k \<noteq> ''content''"
  shows "userPrompt row = userPrompt (remove_column k row) \<and>
         k \<notin> fst ` set (attributes row)"
proof -
  have r: "toLowerCase k \<in> set RESERVED_KEYS"
    using assms(1) by (auto simp: RESERVED_KEYS_def)
  have "attributesText (remove_column k row) = attributesText row"
    by (simp add: attributesText_def attributes_remove[OF r])
  moreover have "title (remove_column k row) = title row"
    using assms(2) by (simp add: title_def row_lookup_remove)
  moreover have "content (remove_column k row) = content row"
    using assms(3) by (simp add: content_def row_lookup_remove)
  ultimately have "userPrompt (remove_column k row) = userPrompt row"
    by (simp add: userPrompt_def)
  moreover have "k \<notin> fst ` set (attributes row)"
    using r by (auto simp: attributes_def)
  ultimately show ?thesis by simp
qed

text \<open>The record with the columns \<open>Title\<close> and \<open>color\<close>: the prompt has an empty title.\<close>

theorem case_variant_dropped_witness:
  "userPrompt [(''Title'', ''Annual Report''), (''color'', ''red'')] =
     userPrompt [(''color'', ''red'')] \<and>
   ''Title'' \<notin> fst ` set (attributes [(''Title'', ''Annual Report''), (''color'', ''red'')]) \<and>
   userPrompt [(''Title'', ''Annual Report''), (''color'', ''red'')] =
     ''Generate keywords for the following document:'' @ [newline, newline] @ ''Title: '' @
     [newline, newline] @ ''Attributes:'' @ [newline] @ ''- color: red'' @ [newline, newline] @
     ''Description: ''"
proof -
  have l: "toLowerCase ''Title'' = ''title'' \<or> toLowerCase ''Title'' = ''content''"
    by (simp add: toLowerCase_def lower_char_def)
  have p: "userPrompt [(''color'', ''red'')] =
     ''Generate keywords for the following document:'' @ [newline, newline] @ ''Title: '' @
     [newline, newline] @ ''Attributes:'' @ [newline] @ ''- color: red'' @ [newline, newline] @
     ''Description: ''"
    by (simp add: userPrompt_def title_def content_def row_lookup_def object_prototype_keys_def
        attributesText_def attributes_def object_entries_def
        is_array_index_def is_digit_def RESERVED_KEYS_def toLowerCase_def lower_char_def)
  show ?thesis
    using case_variant_dropped[OF l, of "[(''Title'', ''Annual Report''), (''color'', ''red'')]"] p
    by (simp add: remove_column_def)
qed

section \<open>An uninterrupted run\<close>

text \<open>Selecting and reading a valid table in a fresh component.\<close>

lemma load_valid:
  assumes "file_type f = ''text/csv''"
    and "parseCSV (file_text f) = \<lparr>headers = hs, rows = rs\<rparr>"
    and "hs \<noteq> []" and "rs \<noteq> []"
  shows "load f = init_state\<lparr>selected_file := Some f, csvData := \<lparr>headers = hs, rows = rs\<rparr>,
           results := replicate (length rs) pending_row\<rparr>"
  using assms
  by (simp add: load_def exec_def step_def handleFileChange_def reader_onload_def init_state_def
      rerender_def run_cleanup_def effect_def Let_def)

text \<open>Pressing start marks the first row and starts its call.\<close>

lemma start_run:
  assumes "file_type f = ''text/csv''"
    and "parseCSV (file_text f) = \<lparr>headers = hs, rows = rs\<rparr>"
    and "hs \<noteq> []" and "rs \<noteq> []"
  shows "toggleProcessing (load f) = run_state f hs rs []"
proof -
  obtain n where n: "length rs = Suc n" using assms(4) by (cases rs) auto
  show ?thesis
    unfolding load_valid[OF assms]
    apply (simp add: toggleProcessing_def init_state_def rerender_def run_cleanup_def)
    apply (simp add: effect_def n)
    apply (simp add: write_result_def n)
    apply (simp add: run_state_def n pending_row_def processing_row_def active_call_def)
    done
qed

lemma start_event:
  assumes "file_type f = ''text/csv''"
    and "parseCSV (file_text f) = \<lparr>headers = hs, rows = rs\<rparr>"
    and "hs \<noteq> []" and "rs \<noteq> []"
  shows "step (load f) Toggle = run_state f hs rs []"
proof -
  have "step (load f) Toggle = toggleProcessing (load f)"
    unfolding load_valid[OF assms] by (simp add: step_def init_state_def)
  then show ?thesis by (simp add: start_run[OF assms])
qed

text \<open>
  The reply to the call in flight, when its entry can be rendered, finalises the row at
  the cursor, advances the cursor and starts the next row, or ends the run after the
  last row.
\<close>

lemma settle_run_state:
  assumes "length outs < length rs"
    and "outcome (generateKeywordsFromApi reply) = Some row"
  shows "settle (length outs) reply (run_state f hs rs outs) = run_state f hs rs (outs @ [row])"
proof -
  obtain m where m: "length rs = Suc (length outs + m)"
    using assms(1) less_imp_Suc_add by blast
  have a: "settle (length outs) reply (run_state f hs rs outs) =
     rerender ((run_state f hs rs outs)
       \<lparr>calls := map (finished_call rs) [0..<length outs] @
           [(active_call rs (length outs))\<lparr>settled := True\<rparr>],
        results := outs @ row # replicate m pending_row,
        currentIndex := Suc (length outs)\<rparr>)"
    using assms(2)
    by (simp add: settle_def run_state_def Let_def nth_append active_call_def m write_result_def
        list_update_append)
  have b: "run_cleanup ((run_state f hs rs outs)
       \<lparr>calls := map (finished_call rs) [0..<length outs] @
           [(active_call rs (length outs))\<lparr>settled := True\<rparr>],
        results := outs @ row # replicate m pending_row,
        currentIndex := Suc (length outs)\<rparr>) =
      \<lparr>selected_file = Some f, csvData = \<lparr>headers = hs, rows = rs\<rparr>,
       results = outs @ row # replicate m pending_row,
       run_status = Running, currentIndex = Suc (length outs), ui_error = None, reading = [],
       calls = map (finished_call rs) [0..<Suc (length outs)],
       cleanup = None, out_of_range = False, unmounted = False\<rparr>"
    by (simp add: run_cleanup_def run_state_def m nth_append finished_call_def active_call_def
        list_update_append)
  show ?thesis
  proof (cases m)
    case 0
    then have e: "length rs = Suc (length outs)" using m by simp
    show ?thesis
      unfolding a rerender_def b
      by (simp add: effect_def run_state_def e 0)
  next
    case (Suc n)
    then have e: "length rs = Suc (Suc (length outs + n))" using m by simp
    show ?thesis
      unfolding a rerender_def b
      by (simp add: effect_def run_state_def e Suc write_result_def nth_append
          list_update_append pending_row_def processing_row_def active_call_def)
  qed
qed

text \<open>
  The reply to the call in flight, when its \<^verbatim>\<open>keywords\<close> cannot be rendered: the
  component is removed.
\<close>

lemma settle_run_state_crash:
  assumes "length outs < length rs"
    and "outcome (generateKeywordsFromApi reply) = None"
  shows "settle (length outs) reply (run_state f hs rs outs) =
         init_state\<lparr>calls := map (finished_call rs) [0..<Suc (length outs)], unmounted := True\<rparr>"
  using assms
  by (simp add: settle_def run_state_def Let_def nth_append active_call_def unmount_def
      run_cleanup_def init_state_def finished_call_def list_update_append)

lemma step_run_state: "step (run_state f hs rs outs) e = deliver (run_state f hs rs outs) e"
  by (simp add: step_def run_state_def)

lemma run_from:
  "length outs + length replies \<le> length rs \<Longrightarrow>
   map Some rows' = map (\<lambda>reply. outcome (generateKeywordsFromApi reply)) replies \<Longrightarrow>
   foldl step (run_state f hs rs outs)
     (map (\<lambda>(j, reply). Settle j reply) (zip [length outs..<length outs + length replies] replies))
   = run_state f hs rs (outs @ rows')"
proof (induction replies arbitrary: outs rows')
  case Nil
  then show ?case by simp
next
  case (Cons reply replies)
  obtain row rest where r: "rows' = row # rest"
    and o: "outcome (generateKeywordsFromApi reply) = Some row"
    and m: "map Some rest = map (\<lambda>reply. outcome (generateKeywordsFromApi reply)) replies"
    using Cons.prems(2) by (cases rows') auto
  have z: "zip [length outs..<length outs + length (reply # replies)] (reply # replies) =
        (length outs, reply) # zip [Suc (length outs)..<Suc (length outs) + length replies] replies"
    by (simp add: upt_rec)
  have lt: "length outs < length rs" using Cons.prems by simp
  have "length (outs @ [row]) + length replies \<le> length rs"
    using Cons.prems by simp
  from Cons.IH[OF this m] show ?case
    unfolding z r by (simp add: step_run_state settle_run_state[OF lt o])
qed

lemma full_run_state:
  assumes "file_type f = ''text/csv''"
    and "parseCSV (file_text f) = \<lparr>headers = hs, rows = rs\<rparr>"
    and "hs \<noteq> []" and "rs \<noteq> []"
    and "length replies \<le> length rs"
    and "map Some rows' = map (\<lambda>reply. outcome (generateKeywordsFromApi reply)) replies"
  shows "full_run f replies = run_state f hs rs rows'"
  using run_from[of "[]" replies rs rows' f hs] assms(5,6)
  by (simp add: full_run_def exec_def start_event[OF assms(1-4)])

lemma terminal_outcome: "outcome r = Some row \<Longrightarrow> terminal row"
  by (cases r) (auto simp: terminal_def outcome_def)

text \<open>
  Claim C1. For a file of type \<^verbatim>\<open>text/csv\<close> that parses to a non-empty header list and
  \<open>R\<close> data rows, selected and read in a fresh component: after start is pressed and the
  replies to the \<open>R\<close> calls have arrived in turn, with no other event, each reply giving
  an entry that the table can be rendered with (without which the run does not
  complete), there are exactly \<open>R\<close> outcomes, every one \<open>completed\<close> or \<open>error\<close> (the
  outcome of its reply), the cursor is \<open>R\<close> and the run status is \<open>done\<close>.
\<close>

theorem full_run_done:
  assumes "file_type f = ''text/csv''"
    and "parseCSV (file_text f) = \<lparr>headers = hs, rows = rs\<rparr>"
    and "hs \<noteq> []" and "rs \<noteq> []"
    and "length replies = length rs"
    and "list_all (\<lambda>reply. outcome (generateKeywordsFromApi reply) \<noteq> None) replies"
  shows "length (results (full_run f replies)) = length rs \<and>
         list_all terminal (results (full_run f replies)) \<and>
         currentIndex (full_run f replies) = length rs \<and>
         run_status (full_run f replies) = Done \<and>
         map Some (results (full_run f replies)) =
           map (\<lambda>reply. outcome (generateKeywordsFromApi reply)) replies"
proof -
  let ?rows = "map (\<lambda>reply. the (outcome (generateKeywordsFromApi reply))) replies"
  have m: "map Some ?rows = map (\<lambda>reply. outcome (generateKeywordsFromApi reply)) replies"
    using assms(6) by (induction replies) auto
  have t: "list_all terminal ?rows"
    using assms(6) by (induction replies) (auto intro: terminal_outcome)
  have "full_run f replies = run_state f hs rs ?rows"
    using assms(1-5) m by (intro full_run_state) auto
  then show ?thesis
    using assms(5) m t by (simp add: run_state_def)
qed

text \<open>
  A table of two rows; the first reply brings a keyword and a number, the second call
  throws.
\<close>

theorem full_run_done_witness:
  "length (results (full_run (table_file (''a'' @ [newline] @ ''x'' @ [newline] @ ''y''))
      [keywords_reply (JArr [JStr ''k'', JNum ''7'']),
       CallThrows (ErrorInstance ''rate limited'')])) = 2 \<and>
   list_all terminal (results (full_run (table_file (''a'' @ [newline] @ ''x'' @ [newline] @ ''y''))
      [keywords_reply (JArr [JStr ''k'', JNum ''7'']),
       CallThrows (ErrorInstance ''rate limited'')])) \<and>
   currentIndex (full_run (table_file (''a'' @ [newline] @ ''x'' @ [newline] @ ''y''))
      [keywords_reply (JArr [JStr ''k'', JNum ''7'']),
       CallThrows (ErrorInstance ''rate limited'')]) = 2 \<and>
   run_status (full_run (table_file (''a'' @ [newline] @ ''x'' @ [newline] @ ''y''))
      [keywords_reply (JArr [JStr ''k'', JNum ''7'']),
       CallThrows (ErrorInstance ''rate limited'')]) = Done \<and>
   results (full_run (table_file (''a'' @ [newline] @ ''x'' @ [newline] @ ''y''))
      [keywords_reply (JArr [JStr ''k'', JNum ''7'']),
       CallThrows (ErrorInstance ''rate limited'')]) =
     [\<lparr>status = Completed, row_keywords = [JStr ''k'', JNum ''7''], error = None\<rparr>,
      \<lparr>status = Error, row_keywords = [], error = Some ''rate limited''\<rparr>]"
proof -
  have t: "file_type (table_file (''a'' @ [newline] @ ''x'' @ [newline] @ ''y'')) = ''text/csv''"
    by (simp add: table_file_def)
  have p: "parseCSV (file_text (table_file (''a'' @ [newline] @ ''x'' @ [newline] @ ''y''))) =
           \<lparr>headers = [''a''], rows = [[(''a'', ''x'')], [(''a'', ''y'')]]\<rparr>"
    by (simp add: table_file_def parse_defs)
  have o: "outcome (generateKeywordsFromApi (keywords_reply (JArr [JStr ''k'', JNum ''7'']))) =
             Some \<lparr>status = Completed, row_keywords = [JStr ''k'', JNum ''7''], error = None\<rparr>"
    "outcome (generateKeywordsFromApi (CallThrows (ErrorInstance ''rate limited''))) =
             Some \<lparr>status = Error, row_keywords = [], error = Some ''rate limited''\<rparr>"
    by (simp_all add: outcome_def generateKeywordsFromApi_def keywords_reply_def errorMessage_def)
  show ?thesis
    using full_run_done[OF t p, of
        "[keywords_reply (JArr [JStr ''k'', JNum ''7'']),
          CallThrows (ErrorInstance ''rate limited'')]"]
    by (simp add: o terminal_def map_eq_Cons_conv)
qed

text \<open>Nothing happens in a component that has been removed.\<close>

lemma exec_unmounted: "unmounted s \<Longrightarrow> exec s evs = s"
  unfolding exec_def by (induction evs) (simp_all add: step_def)

text \<open>
  Without that condition on the replies the run does not complete: at the first reply
  whose \<^verbatim>\<open>keywords\<close> cannot be rendered the component is removed, and the cursor never
  reaches \<open>R\<close>.
\<close>

lemma full_run_halts:
  assumes "file_type f = ''text/csv''"
    and "parseCSV (file_text f) = \<lparr>headers = hs, rows = rs\<rparr>"
    and "hs \<noteq> []" and "rs \<noteq> []"
    and "length replies \<le> length rs"
    and "\<not> list_all (\<lambda>reply. outcome (generateKeywordsFromApi reply) \<noteq> None) replies"
  shows "unmounted (full_run f replies) \<and> results (full_run f replies) = [] \<and>
         currentIndex (full_run f replies) = 0 \<and> run_status (full_run f replies) = Idle"
proof -
  obtain pre bad post where sp: "replies = pre @ bad # post"
    and b: "outcome (generateKeywordsFromApi bad) = None"
    and p: "\<forall>r \<in> set pre. outcome (generateKeywordsFromApi r) \<noteq> None"
    using assms(6) split_list_first_prop[of replies "\<lambda>r. outcome (generateKeywordsFromApi r) = None"]
    by (auto simp: list_all_iff)
  let ?rows = "map (\<lambda>reply. the (outcome (generateKeywordsFromApi reply))) pre"
  let ?ev = "\<lambda>(j, reply). Settle j reply"
  have m: "map Some ?rows = map (\<lambda>reply. outcome (generateKeywordsFromApi reply)) pre"
    using p by (induction pre) auto
  have lt: "length ?rows < length rs" using assms(5) sp by simp
  have n: "length replies = length pre + Suc (length post)" using sp by simp
  have u1: "[0..<length pre + Suc (length post)] =
            [0..<length pre] @ [length pre..<length pre + Suc (length post)]"
    by (rule upt_add_eq_append) simp
  have u2: "[length pre..<length pre + Suc (length post)] =
            length pre # [Suc (length pre)..<length pre + Suc (length post)]"
    by (rule upt_conv_Cons) simp
  have u: "[0..<length replies] =
           [0..<length pre] @ length pre # [Suc (length pre)..<length replies]"
    by (simp only: n u1 u2)
  have z: "zip [0..<length replies] replies =
           zip [0..<length pre] pre @ (length pre, bad) # zip [Suc (length pre)..<length replies] post"
    unfolding u by (simp add: sp)
  have a: "foldl step (run_state f hs rs []) (map ?ev (zip [0..<length pre] pre)) =
           run_state f hs rs ?rows"
    using run_from[of "[]" pre rs ?rows f hs] m lt by simp
  have c: "unmounted (step (run_state f hs rs ?rows) (Settle (length pre) bad))"
    "results (step (run_state f hs rs ?rows) (Settle (length pre) bad)) = []"
    "currentIndex (step (run_state f hs rs ?rows) (Settle (length pre) bad)) = 0"
    "run_status (step (run_state f hs rs ?rows) (Settle (length pre) bad)) = Idle"
    using settle_run_state_crash[OF lt b, of f hs]
    by (simp_all add: step_run_state init_state_def)
  have "full_run f replies =
        exec (step (run_state f hs rs ?rows) (Settle (length pre) bad))
          (map ?ev (zip [Suc (length pre)..<length replies] post))"
    unfolding full_run_def z by (simp add: exec_def start_event[OF assms(1-4)] a)
  then have "full_run f replies = step (run_state f hs rs ?rows) (Settle (length pre) bad)"
    using exec_unmounted[OF c(1)] by simp
  then show ?thesis using c by simp
qed

section \<open>The invariant of the scheduling loop\<close>

lemma run_cleanup_fields [simp]:
  "results (run_cleanup s) = results s"
  "csvData (run_cleanup s) = csvData s"
  "currentIndex (run_cleanup s) = currentIndex s"
  "run_status (run_cleanup s) = run_status s"
  "out_of_range (run_cleanup s) = out_of_range s"
  "selected_file (run_cleanup s) = selected_file s"
  "unmounted (run_cleanup s) = unmounted s"
  "cleanup (run_cleanup s) = None"
  "length (calls (run_cleanup s)) = length (calls s)"
  by (simp_all add: run_cleanup_def split: option.splits)

lemma run_cleanup_no_live:
  assumes "\<forall>j < length (calls s). live (calls s ! j) \<longrightarrow> cleanup s = Some j"
    and "j < length (calls s)"
  shows "\<not> live (calls (run_cleanup s) ! j)"
proof (cases "cleanup s")
  case None
  then show ?thesis using assms by (simp add: run_cleanup_def)
next
  case (Some x)
  show ?thesis
  proof (cases "x = j")
    case True
    then show ?thesis using Some assms(2) by (simp add: run_cleanup_def live_def)
  next
    case False
    then show ?thesis using Some assms by (auto simp: run_cleanup_def)
  qed
qed

lemma effect_inv:
  assumes "length (results s) = length (rows (csvData s))"
    and "\<not> out_of_range s"
    and "\<forall>j < length (calls s). \<not> live (calls s ! j)"
    and "cleanup s = None"
    and "\<forall>i < length (results s). status (results s ! i) = Processing \<longrightarrow> i = currentIndex s"
  shows "inv (effect s)"
proof (cases "run_status s \<noteq> Running \<or> currentIndex s \<ge> length (rows (csvData s))")
  case True
  then show ?thesis using assms by (auto simp: effect_def inv_def)
next
  case False
  then have r: "run_status s = Running" and lt: "currentIndex s < length (results s)"
    using assms(1) by auto
  have e: "effect s = s\<lparr>results := (results s)[currentIndex s := (results s ! currentIndex s)\<lparr>status := Processing\<rparr>],
          calls := calls s @ [\<lparr>idx = currentIndex s,
               request = userPrompt (rows (csvData s) ! currentIndex s),
               isCancelled = False, settled = False\<rparr>],
          cleanup := Some (length (calls s))\<rparr>"
    using False lt by (simp add: effect_def write_result_def)
  show ?thesis
    unfolding e inv_def using assms r lt
    by (auto simp: nth_append live_def nth_list_update)
qed

lemma rerender_inv:
  assumes "length (results s) = length (rows (csvData s))"
    and "\<not> out_of_range s"
    and "\<forall>j < length (calls s). live (calls s ! j) \<longrightarrow> cleanup s = Some j"
    and "\<forall>i < length (results s). status (results s ! i) = Processing \<longrightarrow> i = currentIndex s"
  shows "inv (rerender s)"
  unfolding rerender_def
  using assms run_cleanup_no_live[OF assms(3)]
  by (intro effect_inv) auto

lemma unmount_inv:
  assumes "\<not> out_of_range s"
    and "\<forall>j < length (calls s). live (calls s ! j) \<longrightarrow> cleanup s = Some j"
  shows "inv (unmount s)"
  unfolding inv_def unmount_def
  using assms(1) run_cleanup_no_live[OF assms(2)] by simp

lemma effect_fields [simp]:
  "currentIndex (effect s) = currentIndex s"
  "csvData (effect s) = csvData s"
  "selected_file (effect s) = selected_file s"
  "unmounted (effect s) = unmounted s"
  "length (results (effect s)) = length (results s)"
  by (simp_all add: effect_def write_result_def)

lemma rerender_fields [simp]:
  "currentIndex (rerender s) = currentIndex s"
  "csvData (rerender s) = csvData s"
  "selected_file (rerender s) = selected_file s"
  "unmounted (rerender s) = unmounted s"
  "length (results (rerender s)) = length (results s)"
  by (simp_all add: rerender_def)

lemma unmount_fields [simp]:
  "currentIndex (unmount s) = 0"
  "results (unmount s) = []"
  "run_status (unmount s) = Idle"
  "unmounted (unmount s)"
  by (simp_all add: unmount_def)

lemma effect_results_other:
  "i \<noteq> currentIndex s \<Longrightarrow> results (effect s) ! i = results s ! i"
  by (simp add: effect_def write_result_def)

lemma rerender_results_other:
  "i \<noteq> currentIndex s \<Longrightarrow> results (rerender s) ! i = results s ! i"
  by (simp add: rerender_def effect_results_other)

text \<open>The effect only starts or ends a run that is \<open>running\<close>.\<close>

lemma effect_status:
  "run_status (effect s) = Running \<Longrightarrow> run_status s = Running"
  "run_status s = Idle \<Longrightarrow> run_status (effect s) = Idle"
  by (auto simp: effect_def write_result_def split: if_splits)

lemma rerender_status:
  "run_status (rerender s) = Running \<Longrightarrow> run_status s = Running"
  "run_status s = Idle \<Longrightarrow> run_status (rerender s) = Idle"
  using effect_status[of "run_cleanup s"] by (simp_all add: rerender_def)

lemma invD:
  assumes "inv s"
  shows "length (results s) = length (rows (csvData s))"
    and "\<not> out_of_range s"
    and "\<And>j. j < length (calls s) \<Longrightarrow> live (calls s ! j) \<Longrightarrow> cleanup s = Some j"
    and "\<And>j. cleanup s = Some j \<Longrightarrow> j < length (calls s)"
    and "\<And>j. cleanup s = Some j \<Longrightarrow> live (calls s ! j)"
    and "\<And>j. cleanup s = Some j \<Longrightarrow> idx (calls s ! j) = currentIndex s"
    and "\<And>j. cleanup s = Some j \<Longrightarrow> currentIndex s < length (rows (csvData s))"
    and "\<And>j. cleanup s = Some j \<Longrightarrow> run_status s = Running"
    and "\<And>j. cleanup s = Some j \<Longrightarrow> status (results s ! currentIndex s) = Processing"
    and "\<And>i. i < length (results s) \<Longrightarrow> status (results s ! i) = Processing \<Longrightarrow>
           i = currentIndex s"
    and "run_status s = Running \<Longrightarrow> \<exists>j. cleanup s = Some j"
  using assms unfolding inv_def by blast+

lemma inv_processing:
  "inv s \<Longrightarrow> \<forall>i<length (results s). status (results s ! i) = Processing \<longrightarrow> i = currentIndex s"
  unfolding inv_def by blast

lemma inv_calls:
  "inv s \<Longrightarrow> \<forall>j<length (calls s). live (calls s ! j) \<longrightarrow> cleanup s = Some j"
  unfolding inv_def by blast

lemma rerender_inv_frame:
  assumes "inv s" and "calls t = calls s" and "cleanup t = cleanup s"
    and "length (results t) = length (rows (csvData t))"
    and "\<not> out_of_range t"
    and "\<forall>i<length (results t). status (results t ! i) = Processing \<longrightarrow> i = currentIndex t"
  shows "inv (rerender t)"
proof (rule rerender_inv)
  show "\<forall>j<length (calls t). live (calls t ! j) \<longrightarrow> cleanup t = Some j"
  proof (intro allI impI)
    fix j assume "j < length (calls t)" "live (calls t ! j)"
    then have "j < length (calls s)" "live (calls s ! j)" using assms(2) by simp_all
    then have "cleanup s = Some j" by (rule invD(3)[OF assms(1)])
    then show "cleanup t = Some j" using assms(3) by simp
  qed
qed (use assms in blast)+

lemma inv_toggle:
  assumes "inv s"
  shows "inv (toggleProcessing s)"
  unfolding toggleProcessing_def
proof (rule rerender_inv_frame[OF assms])
  show "\<forall>i<length (results (s\<lparr>run_status := if run_status s = Running then Paused else Running\<rparr>)).
       status (results (s\<lparr>run_status := if run_status s = Running then Paused else Running\<rparr>) ! i)
         = Processing \<longrightarrow>
       i = currentIndex (s\<lparr>run_status := if run_status s = Running then Paused else Running\<rparr>)"
    using inv_processing[OF assms] by simp
qed (simp_all add: invD(1,2)[OF assms])

lemma inv_reset:
  assumes "inv s"
  shows "inv (handleReset s)"
  unfolding handleReset_def
  by (rule rerender_inv_frame[OF assms]) (simp_all add: invD(2)[OF assms])

lemma inv_frame:
  assumes "inv s" and "results t = results s" and "csvData t = csvData s"
    and "calls t = calls s" and "cleanup t = cleanup s" and "currentIndex t = currentIndex s"
    and "run_status t = run_status s" and "out_of_range t = out_of_range s"
  shows "inv t"
  using assms(1) unfolding inv_def assms(2-8) .

lemma inv_select: "inv s \<Longrightarrow> inv (handleFileChange sel s)"
  by (rule inv_frame[of s]) (simp_all add: handleFileChange_def split: option.splits)

lemma inv_onload:
  assumes "inv s"
  shows "inv (reader_onload j s)"
proof (cases "j \<ge> length (reading s)")
  case True
  then show ?thesis using assms by (simp add: reader_onload_def)
next
  case False
  let ?p = "parseCSV (file_text (reading s ! j))"
  show ?thesis
  proof (cases "length (rows ?p) = 0 \<or> length (headers ?p) = 0")
    case True
    have "reader_onload j s = s\<lparr>reading := take j (reading s) @ drop (Suc j) (reading s),
        ui_error := Some ''CSV is empty or invalid.''\<rparr>"
      using True False by (auto simp: reader_onload_def Let_def)
    then show ?thesis
      by (intro inv_frame[OF assms]) simp_all
  next
    case empty: False
    have "inv (rerender (s\<lparr>reading := take j (reading s) @ drop (Suc j) (reading s),
            csvData := ?p, results := replicate (length (rows ?p)) pending_row\<rparr>))"
      by (rule rerender_inv_frame[OF assms]) (simp_all add: pending_row_def invD(2)[OF assms])
    then show ?thesis using False empty
      by (simp add: reader_onload_def Let_def)
  qed
qed

lemma outcome_not_processing: "outcome r = Some row \<Longrightarrow> status row \<noteq> Processing"
  using terminal_outcome[of r row] by (auto simp: terminal_def)

text \<open>What the arrival of a reply does, by the state of its call.\<close>

lemma settle_stale:
  assumes "j \<ge> length (calls s) \<or> settled (calls s ! j) \<or> isCancelled (calls s ! j)"
  shows "results (settle j reply s) = results s"
    and "currentIndex (settle j reply s) = currentIndex s"
    and "run_status (settle j reply s) = run_status s"
    and "csvData (settle j reply s) = csvData s"
    and "cleanup (settle j reply s) = cleanup s"
    and "out_of_range (settle j reply s) = out_of_range s"
    and "selected_file (settle j reply s) = selected_file s"
    and "unmounted (settle j reply s) = unmounted s"
    and "length (calls (settle j reply s)) = length (calls s)"
  using assms by (auto simp: settle_def Let_def)

lemma settle_stale_calls:
  assumes "j \<ge> length (calls s) \<or> settled (calls s ! j) \<or> isCancelled (calls s ! j)"
    and "i < length (calls s)" and "\<not> live (calls s ! i)"
  shows "\<not> live (calls (settle j reply s) ! i)"
  using assms by (auto simp: settle_def Let_def live_def nth_list_update)

lemma live_call:
  assumes "inv s" and "j < length (calls s)" and "live (calls s ! j)"
  shows "cleanup s = Some j" and "idx (calls s ! j) = currentIndex s"
    and "currentIndex s < length (results s)" and "run_status s = Running"
    and "status (results s ! currentIndex s) = Processing"
    and "currentIndex s < length (rows (csvData s))"
proof -
  show c: "cleanup s = Some j" by (rule invD(3)[OF assms])
  show "idx (calls s ! j) = currentIndex s" by (rule invD(6)[OF assms(1) c])
  show "currentIndex s < length (results s)"
    using invD(7)[OF assms(1) c] invD(1)[OF assms(1)] by simp
  show "run_status s = Running" by (rule invD(8)[OF assms(1) c])
  show "status (results s ! currentIndex s) = Processing" by (rule invD(9)[OF assms(1) c])
  show "currentIndex s < length (rows (csvData s))" by (rule invD(7)[OF assms(1) c])
qed

lemma settle_live:
  assumes "inv s" and "j < length (calls s)" and "live (calls s ! j)"
    and "outcome (generateKeywordsFromApi reply) = Some row"
  shows "settle j reply s =
         rerender (s\<lparr>calls := (calls s)[j := (calls s ! j)\<lparr>settled := True\<rparr>],
                     results := (results s)[currentIndex s := row],
                     currentIndex := Suc (currentIndex s)\<rparr>)"
  using assms(2,3,4) live_call(2,3)[OF assms(1-3)]
  by (simp add: settle_def Let_def live_def write_result_def)

lemma settle_crash:
  assumes "inv s" and "view_inv s" and "j < length (calls s)" and "live (calls s ! j)"
    and "outcome (generateKeywordsFromApi reply) = None"
  shows "settle j reply s = unmount (s\<lparr>calls := (calls s)[j := (calls s ! j)\<lparr>settled := True\<rparr>]\<rparr>)"
proof -
  have "selected_file s \<noteq> None"
    using assms(2) live_call(4)[OF assms(1,3,4)] by (simp add: view_inv_def)
  then show ?thesis
    using assms(3,4,5) live_call(2,6)[OF assms(1,3,4)]
    by (simp add: settle_def Let_def live_def)
qed

lemma inv_calls_frame:
  assumes "inv s" and "results t = results s" and "csvData t = csvData s"
    and "cleanup t = cleanup s" and "currentIndex t = currentIndex s"
    and "run_status t = run_status s" and "out_of_range t = out_of_range s"
    and "length (calls t) = length (calls s)"
    and "\<And>k. k < length (calls s) \<Longrightarrow> live (calls t ! k) = live (calls s ! k)"
    and "\<And>k. k < length (calls s) \<Longrightarrow> idx (calls t ! k) = idx (calls s ! k)"
  shows "inv t"
  unfolding inv_def
proof (intro conjI allI impI)
  show "length (results t) = length (rows (csvData t))"
    using invD(1)[OF assms(1)] assms(2,3) by simp
  show "\<not> out_of_range t" using invD(2)[OF assms(1)] assms(7) by simp
  show "\<And>j. j < length (calls t) \<Longrightarrow> live (calls t ! j) \<Longrightarrow> cleanup t = Some j"
    using invD(3)[OF assms(1)] assms(4,8,9) by simp
  show "\<And>i. i < length (results t) \<Longrightarrow> status (results t ! i) = Processing \<Longrightarrow> i = currentIndex t"
    using invD(10)[OF assms(1)] assms(2,5) by simp
  show "run_status t = Running \<Longrightarrow> cleanup t \<noteq> None"
    using invD(11)[OF assms(1)] assms(4,6) by auto
next
  fix j assume "cleanup t = Some j"
  then have c: "cleanup s = Some j" using assms(4) by simp
  have jl: "j < length (calls s)" by (rule invD(4)[OF assms(1) c])
  show "j < length (calls t)" using jl assms(8) by simp
  show "live (calls t ! j)" using invD(5)[OF assms(1) c] assms(9)[OF jl] by simp
  show "idx (calls t ! j) = currentIndex t"
    using invD(6)[OF assms(1) c] assms(10)[OF jl] assms(5) by simp
  show "currentIndex t < length (rows (csvData t))"
    using invD(7)[OF assms(1) c] assms(3,5) by simp
  show "run_status t = Running" using invD(8)[OF assms(1) c] assms(6) by simp
  show "status (results t ! currentIndex t) = Processing"
    using invD(9)[OF assms(1) c] assms(2,5) by simp
qed

lemma settled_calls:
  assumes "inv s"
  shows "\<forall>k<length (calls (s\<lparr>calls := (calls s)[j := (calls s ! j)\<lparr>settled := True\<rparr>]\<rparr>)).
           live (calls (s\<lparr>calls := (calls s)[j := (calls s ! j)\<lparr>settled := True\<rparr>]\<rparr>) ! k) \<longrightarrow>
           cleanup (s\<lparr>calls := (calls s)[j := (calls s ! j)\<lparr>settled := True\<rparr>]\<rparr>) = Some k"
proof (intro allI impI)
  let ?t = "s\<lparr>calls := (calls s)[j := (calls s ! j)\<lparr>settled := True\<rparr>]\<rparr>"
  fix k assume k: "k < length (calls ?t)" and l: "live (calls ?t ! k)"
  have "k \<noteq> j" using l k by (auto simp: live_def)
  then have "live (calls s ! k)" using l by simp
  then have "cleanup s = Some k" using k invD(3)[OF assms, of k] by simp
  then show "cleanup ?t = Some k" by simp
qed

lemma inv_settle:
  assumes "inv s" and "view_inv s"
  shows "inv (settle j reply s)"
proof (cases "j < length (calls s) \<and> live (calls s ! j)")
  case True
  then have jl: "j < length (calls s)" and lv: "live (calls s ! j)" by simp_all
  show ?thesis
  proof (cases "outcome (generateKeywordsFromApi reply)")
    case None
    show ?thesis
      unfolding settle_crash[OF assms jl lv None]
      using settled_calls[OF assms(1), of j] invD(2)[OF assms(1)]
      by (intro unmount_inv) simp_all
  next
    case (Some row)
    let ?t = "s\<lparr>calls := (calls s)[j := (calls s ! j)\<lparr>settled := True\<rparr>],
                 results := (results s)[currentIndex s := row],
                 currentIndex := Suc (currentIndex s)\<rparr>"
    show ?thesis
      unfolding settle_live[OF assms(1) jl lv Some]
    proof (rule rerender_inv)
      show "length (results ?t) = length (rows (csvData ?t))"
        using invD(1)[OF assms(1)] by simp
      show "\<not> out_of_range ?t" using invD(2)[OF assms(1)] by simp
      show "\<forall>k<length (calls ?t). live (calls ?t ! k) \<longrightarrow> cleanup ?t = Some k"
        using settled_calls[OF assms(1), of j] by simp
      show "\<forall>k<length (results ?t). status (results ?t ! k) = Processing \<longrightarrow> k = currentIndex ?t"
      proof (intro allI impI)
        fix k assume k: "k < length (results ?t)" and p: "status (results ?t ! k) = Processing"
        have "k \<noteq> currentIndex s"
          using p k outcome_not_processing[OF Some] by auto
        then have "status (results s ! k) = Processing" using p by simp
        then have "k = currentIndex s" using k invD(10)[OF assms(1), of k] by simp
        then show "k = currentIndex ?t" using \<open>k \<noteq> currentIndex s\<close> by simp
      qed
    qed
  qed
next
  case False
  show ?thesis
  proof (cases "j \<ge> length (calls s) \<or> settled (calls s ! j)")
    case True
    then show ?thesis using assms by (simp add: settle_def)
  next
    case f2: False
    then have c: "isCancelled (calls s ! j)" and jl: "j < length (calls s)"
      using False by (auto simp: live_def)
    have e: "settle j reply s = s\<lparr>calls := (calls s)[j := (calls s ! j)\<lparr>settled := True\<rparr>]\<rparr>"
      using f2 c by (simp add: settle_def Let_def)
    show ?thesis
      unfolding e
    proof (rule inv_calls_frame[OF assms(1)])
      fix k assume "k < length (calls s)"
      then show "live (calls (s\<lparr>calls := (calls s)[j := (calls s ! j)\<lparr>settled := True\<rparr>]\<rparr>) ! k)
                 = live (calls s ! k)"
        using c by (cases "k = j") (simp_all add: live_def)
    next
      fix k assume "k < length (calls s)"
      then show "idx (calls (s\<lparr>calls := (calls s)[j := (calls s ! j)\<lparr>settled := True\<rparr>]\<rparr>) ! k)
                 = idx (calls s ! k)"
        by (cases "k = j") simp_all
    qed simp_all
  qed
qed

text \<open>The run and the view.\<close>

lemma view_settle:
  assumes "inv s" and "view_inv s"
  shows "view_inv (settle j reply s)"
proof (cases "j < length (calls s) \<and> live (calls s ! j)")
  case True
  then have jl: "j < length (calls s)" and lv: "live (calls s ! j)" by simp_all
  have r: "run_status s = Running" by (rule live_call(4)[OF assms(1) jl lv])
  then have u: "\<not> unmounted s" and f: "selected_file s \<noteq> None"
    using assms(2) by (auto simp: view_inv_def)
  show ?thesis
  proof (cases "outcome (generateKeywordsFromApi reply)")
    case None
    show ?thesis
      unfolding settle_crash[OF assms jl lv None] by (simp add: view_inv_def)
  next
    case (Some row)
    show ?thesis
      unfolding settle_live[OF assms(1) jl lv Some] using u f by (simp add: view_inv_def)
  qed
next
  case False
  then have st: "j \<ge> length (calls s) \<or> settled (calls s ! j) \<or> isCancelled (calls s ! j)"
    by (auto simp: live_def)
  show ?thesis
    using assms(2) by (simp add: view_inv_def settle_stale[OF st])
qed

lemma view_toggle:
  assumes "view_inv s" and "selected_file s \<noteq> None" and "\<not> unmounted s"
  shows "view_inv (toggleProcessing s)"
  using assms(2,3) by (simp add: view_inv_def toggleProcessing_def)

lemma view_reset: "\<not> unmounted s \<Longrightarrow> view_inv (handleReset s)"
  by (auto simp: view_inv_def handleReset_def dest: rerender_status(1))

lemma view_select: "view_inv s \<Longrightarrow> view_inv (handleFileChange sel s)"
  by (auto simp: view_inv_def handleFileChange_def split: option.splits)

lemma view_onload: "view_inv s \<Longrightarrow> view_inv (reader_onload j s)"
  by (auto simp: view_inv_def reader_onload_def Let_def rerender_status(2)
      dest!: rerender_status(1))

lemma inv_step:
  assumes "inv s" and "view_inv s"
  shows "inv (step s e)" and "view_inv (step s e)"
proof -
  show "inv (step s e)"
    using assms
    by (cases e) (simp_all add: step_def inv_toggle inv_reset inv_select inv_onload inv_settle)
  show "view_inv (step s e)"
    using assms
    by (cases e)
      (simp_all add: step_def view_toggle view_reset view_select view_onload view_settle)
qed

lemma inv_init: "inv init_state" "view_inv init_state"
  by (simp_all add: inv_def view_inv_def init_state_def)

lemma inv_exec: "inv s \<Longrightarrow> view_inv s \<Longrightarrow> inv (exec s evs) \<and> view_inv (exec s evs)"
  unfolding exec_def by (induction evs arbitrary: s) (simp_all add: inv_step)

lemma reachable_inv: "reachable s \<Longrightarrow> inv s"
  unfolding reachable_def using inv_exec[OF inv_init] by auto

lemma reachable_view: "reachable s \<Longrightarrow> view_inv s"
  unfolding reachable_def using inv_exec[OF inv_init] by auto

section \<open>One row in flight\<close>

text \<open>A property that holds at one index only holds for at most one element.\<close>

lemma only_at_index:
  assumes "\<And>i. i < length xs \<Longrightarrow> P (xs ! i) \<Longrightarrow> i = k"
  shows "length (filter P xs) \<le> 1"
proof -
  have a: "filter P (take k xs) = []"
  proof -
    have "\<not> P y" if "y \<in> set (take k xs)" for y
    proof -
      from that obtain i where "i < length (take k xs)" "y = take k xs ! i"
        by (auto simp: in_set_conv_nth)
      then have "i < length xs" "i < k" "y = xs ! i" by simp_all
      then show ?thesis using assms[of i] by auto
    qed
    then show ?thesis by (simp add: filter_empty_conv)
  qed
  have b: "filter P (drop (Suc k) xs) = []"
  proof -
    have "\<not> P y" if "y \<in> set (drop (Suc k) xs)" for y
    proof -
      from that obtain i where "i < length (drop (Suc k) xs)" "y = drop (Suc k) xs ! i"
        by (auto simp: in_set_conv_nth)
      then have "Suc k + i < length xs" "y = xs ! (Suc k + i)" by simp_all
      then show ?thesis using assms[of "Suc k + i"] by auto
    qed
    then show ?thesis by (simp add: filter_empty_conv)
  qed
  show ?thesis
  proof (cases "k < length xs")
    case True
    have "filter P xs = filter P (take k xs @ xs ! k # drop (Suc k) xs)"
      using id_take_nth_drop[OF True] by simp
    then show ?thesis using a b by simp
  next
    case False
    then have "take k xs = xs" by simp
    then show ?thesis using a by simp
  qed
qed

lemma reachable_step: "reachable s \<Longrightarrow> reachable (step s e)"
  unfolding reachable_def exec_def
proof -
  assume "\<exists>evs. s = foldl step init_state evs"
  then obtain evs where "s = foldl step init_state evs" by blast
  then have "step s e = foldl step init_state (evs @ [e])" by simp
  then show "\<exists>evs. step s e = foldl step init_state evs" by blast
qed

lemma handleReset_index: "currentIndex (handleReset s) = 0"
  by (simp add: handleReset_def)

lemma toggle_index: "currentIndex (toggleProcessing s) = currentIndex s"
  by (simp add: toggleProcessing_def)

lemma select_index: "currentIndex (handleFileChange sel s) = currentIndex s"
  by (simp add: handleFileChange_def split: option.splits)

lemma onload_index: "currentIndex (reader_onload j s) = currentIndex s"
  by (simp add: reader_onload_def Let_def)

lemma settle_live_result:
  assumes "inv s" and "j < length (calls s)" and "live (calls s ! j)"
    and "outcome (generateKeywordsFromApi reply) = Some row"
  shows "currentIndex (settle j reply s) = Suc (currentIndex s)"
    and "results (settle j reply s) ! currentIndex s = row"
  using live_call(3)[OF assms(1-3)]
  unfolding settle_live[OF assms]
  by (simp_all add: rerender_results_other)

text \<open>The only event that moves the cursor forward.\<close>

lemma cursor_advance:
  assumes "inv s" and "view_inv s" and "currentIndex s < currentIndex (step s e)"
  shows "\<exists>j reply row. step s e = settle j reply s \<and> j < length (calls s) \<and> live (calls s ! j) \<and>
           outcome (generateKeywordsFromApi reply) = Some row"
proof (cases e)
  case (Settle j reply)
  have u: "\<not> unmounted s" using assms(3) by (auto simp: step_def)
  then have e: "step s e = settle j reply s" using Settle by (simp add: step_def)
  have "\<not> (j \<ge> length (calls s) \<or> settled (calls s ! j) \<or> isCancelled (calls s ! j))"
    using assms(3) settle_stale(2)[where j=j and s=s and reply=reply] e by auto
  then have jl: "j < length (calls s)" and lv: "live (calls s ! j)"
    by (auto simp: live_def)
  have "outcome (generateKeywordsFromApi reply) \<noteq> None"
  proof
    assume "outcome (generateKeywordsFromApi reply) = None"
    then have "currentIndex (settle j reply s) = 0"
      by (simp add: settle_crash[OF assms(1,2) jl lv])
    then show False using assms(3) e by simp
  qed
  then show ?thesis using e jl lv by auto
qed (use assms(3) in \<open>auto simp: step_def handleReset_index toggle_index select_index
  onload_index split: if_splits\<close>)

text \<open>
  Claim C8. In every state the component can reach, at most one outcome is \<open>processing\<close>;
  and whenever an event moves the cursor forward, it moves it by exactly one, the row
  at the old cursor was the one \<open>processing\<close>, and that row's outcome is terminal
  (\<open>completed\<close> or \<open>error\<close>) in the state with the new cursor.
\<close>

theorem one_row_in_flight:
  assumes "reachable s"
  shows "length (filter (\<lambda>r. status r = Processing) (results s)) \<le> 1 \<and>
         (\<forall>e. currentIndex s < currentIndex (step s e) \<longrightarrow>
              currentIndex (step s e) = Suc (currentIndex s) \<and>
              currentIndex s < length (results s) \<and>
              status (results s ! currentIndex s) = Processing \<and>
              terminal (results (step s e) ! currentIndex s))"
proof (intro conjI allI impI)
  have i: "inv s" by (rule reachable_inv[OF assms])
  have v: "view_inv s" by (rule reachable_view[OF assms])
  show "length (filter (\<lambda>r. status r = Processing) (results s)) \<le> 1"
  proof (rule only_at_index[where k="currentIndex s"])
    fix a assume "a < length (results s)" "status (results s ! a) = Processing"
    then show "a = currentIndex s" by (rule invD(10)[OF i])
  qed
  fix e assume adv: "currentIndex s < currentIndex (step s e)"
  obtain j reply row where e: "step s e = settle j reply s" and jl: "j < length (calls s)"
    and lv: "live (calls s ! j)" and o: "outcome (generateKeywordsFromApi reply) = Some row"
    using cursor_advance[OF i v adv] by blast
  show "currentIndex (step s e) = Suc (currentIndex s)"
    using settle_live_result(1)[OF i jl lv o] e by simp
  show "currentIndex s < length (results s)" by (rule live_call(3)[OF i jl lv])
  show "status (results s ! currentIndex s) = Processing" by (rule live_call(5)[OF i jl lv])
  show "terminal (results (step s e) ! currentIndex s)"
    using settle_live_result(2)[OF i jl lv o] e terminal_outcome[OF o] by simp
qed

lemma reachable_exec: "reachable (exec init_state evs)"
  unfolding reachable_def by blast

lemma reachable_load: "reachable (load f)"
  unfolding load_def by (rule reachable_exec)

lemma two_rows_table:
  "file_type two_rows = ''text/csv''"
  "parseCSV (file_text two_rows) = \<lparr>headers = [''a''], rows = [[(''a'', ''x'')], [(''a'', ''y'')]]\<rparr>"
  by (simp_all add: two_rows_def table_file_def parse_defs)

lemma started_state: "started = run_state two_rows [''a''] [[(''a'', ''x'')], [(''a'', ''y'')]] []"
  unfolding started_def by (rule start_run[OF two_rows_table]) simp_all

lemma reachable_started_state: "reachable started"
proof -
  have "step (load two_rows) Toggle = started"
    using start_event[OF two_rows_table] by (simp add: started_state)
  then show ?thesis
    using reachable_step[OF reachable_load, of two_rows Toggle] by simp
qed

lemma started_step: "step started e = deliver started e"
  by (simp add: started_state step_run_state)

lemma started_settle:
  "outcome (generateKeywordsFromApi reply) = Some row \<Longrightarrow>
   settle 0 reply started =
   run_state two_rows [''a''] [[(''a'', ''x'')], [(''a'', ''y'')]] [row]"
  unfolding started_state
  using settle_run_state[of "[]" "[[(''a'', ''x'')], [(''a'', ''y'')]]"] by simp

lemma started_crash:
  "outcome (generateKeywordsFromApi reply) = None \<Longrightarrow>
   settle 0 reply started =
   init_state\<lparr>calls := [finished_call [[(''a'', ''x'')], [(''a'', ''y'')]] 0], unmounted := True\<rparr>"
  unfolding started_state
  using settle_run_state_crash[of "[]" "[[(''a'', ''x'')], [(''a'', ''y'')]]"] by simp

lemma keywords_outcome:
  "outcome (generateKeywordsFromApi (keywords_reply (JArr [JStr k]))) =
     Some \<lparr>status = Completed, row_keywords = [JStr k], error = None\<rparr>"
  by (simp add: outcome_def generateKeywordsFromApi_def keywords_reply_def)

text \<open>The two-row table after start, and the reply to its first call.\<close>

theorem one_row_in_flight_witness:
  "length (filter (\<lambda>r. status r = Processing) (results started)) \<le> 1 \<and>
   currentIndex started
     < currentIndex (step started (Settle 0 (keywords_reply (JArr [JStr ''k''])))) \<and>
   currentIndex (step started (Settle 0 (keywords_reply (JArr [JStr ''k'']))))
     = Suc (currentIndex started) \<and>
   currentIndex started < length (results started) \<and>
   status (results started ! currentIndex started) = Processing \<and>
   terminal (results (step started (Settle 0 (keywords_reply (JArr [JStr ''k'']))))
     ! currentIndex started)"
proof -
  have adv: "currentIndex started
      < currentIndex (step started (Settle 0 (keywords_reply (JArr [JStr ''k'']))))"
    by (simp add: started_step started_settle[OF keywords_outcome])
       (simp add: started_state run_state_def)
  show ?thesis
    using one_row_in_flight[OF reachable_started_state] adv
    by blast
qed

text \<open>
  Controls that are not in the view: there is no start button before a file is
  selected and no file input afterwards, and the start button does nothing when the
  run is \<open>done\<close>.
\<close>

lemma hidden_controls:
  "step init_state Toggle = init_state"
  "step init_state Reset = init_state"
  "step (load two_rows) (SelectFile (Some three_rows)) = load two_rows"
  "step (run_state f hs rs outs) (SelectFile sel) = run_state f hs rs outs"
  "length rs \<le> length outs \<Longrightarrow> step (run_state f hs rs outs) Toggle = run_state f hs rs outs"
  by (simp_all add: step_def init_state_def run_state_def load_valid[OF two_rows_table, simplified])

section \<open>Failed rows and malformed replies\<close>

text \<open>
  Every reply is of one of three kinds: it delivers no keywords, and
  \<^verbatim>\<open>generateKeywordsFromApi\<close> throws an \<^verbatim>\<open>Error\<close> or passes on what the call threw; or it
  has a \<^verbatim>\<open>keywords\<close> that counts as true, which is returned whatever its shape, and
  then the table can be rendered with it or not.
\<close>

lemma failure_outcome:
  "is_failure reply \<Longrightarrow>
   outcome (generateKeywordsFromApi reply) =
     Some \<lparr>status = Error, row_keywords = [], error = Some (failure_message reply)\<rparr>"
  by (auto simp: is_failure_def outcome_def generateKeywordsFromApi_def failure_message_def
      errorMessage_def split: api_reply.splits option.splits thrown.splits)

lemma generate_returns:
  "truthy v \<Longrightarrow> keywords_member v = Some k \<Longrightarrow> truthy k \<Longrightarrow>
   generateKeywordsFromApi (Parsed v) = Inr k"
  by (simp add: generateKeywordsFromApi_def)

lemma no_failure_returns:
  "\<not> is_failure reply \<Longrightarrow>
   \<exists>v k. reply = Parsed v \<and> keywords_member v = Some k \<and> truthy k \<and>
         generateKeywordsFromApi reply = Inr k"
  by (auto simp: is_failure_def generateKeywordsFromApi_def split: api_reply.splits option.splits)

lemma rerender_running:
  assumes "run_status t = Running" and "length (results t) = length (rows (csvData t))"
  shows "run_status (rerender t) =
           (if currentIndex t < length (rows (csvData t)) then Running else Done)"
    and "currentIndex t < length (rows (csvData t)) \<Longrightarrow>
           status (results (rerender t) ! currentIndex t) = Processing"
  using assms by (simp_all add: rerender_def effect_def write_result_def)

text \<open>
  Claim C5, as amended. In a reachable state, let a reply that delivers no keywords (the
  call throws, the text does not parse, the parsed value counts as false, or its
  \<^verbatim>\<open>keywords\<close> is missing or counts as false) arrive for a call that is live, that is,
  not cancelled since it started. Then the call is the one of the row at the cursor;
  that row's outcome becomes \<open>error\<close> with the message of the failure (the message of a
  thrown \<^verbatim>\<open>Error\<close> or of the parse error as it is, \<open>Unknown error\<close> for a thrown value
  that is not an \<^verbatim>\<open>Error\<close>, the fixed text for a parsed value); the cursor advances by
  one; and the run goes on: it stays \<open>running\<close> with the next row \<open>processing\<close>, or is
  \<open>done\<close> when that was the last row.
\<close>

theorem failed_row_recorded:
  assumes "reachable s" and "j < length (calls s)" and "live (calls s ! j)"
    and "is_failure reply"
  shows "idx (calls s ! j) = currentIndex s \<and>
         results (settle j reply s) ! currentIndex s =
           \<lparr>status = Error, row_keywords = [], error = Some (failure_message reply)\<rparr> \<and>
         currentIndex (settle j reply s) = Suc (currentIndex s) \<and>
         (if Suc (currentIndex s) < length (rows (csvData s))
          then run_status (settle j reply s) = Running \<and>
               status (results (settle j reply s) ! Suc (currentIndex s)) = Processing
          else run_status (settle j reply s) = Done)"
proof -
  have i: "inv s" by (rule reachable_inv[OF assms(1)])
  note o = failure_outcome[OF assms(4)]
  note sl = settle_live[OF i assms(2,3) o]
  note lc = live_call[OF i assms(2,3)]
  let ?t = "s\<lparr>calls := (calls s)[j := (calls s ! j)\<lparr>settled := True\<rparr>],
               results := (results s)[currentIndex s :=
                 \<lparr>status = Error, row_keywords = [], error = Some (failure_message reply)\<rparr>],
               currentIndex := Suc (currentIndex s)\<rparr>"
  have r: "run_status ?t = Running" using lc(4) by simp
  have l: "length (results ?t) = length (rows (csvData ?t))" using invD(1)[OF i] by simp
  have "results (settle j reply s) ! currentIndex s =
          \<lparr>status = Error, row_keywords = [], error = Some (failure_message reply)\<rparr>"
    by (rule settle_live_result(2)[OF i assms(2,3) o])
  moreover have "currentIndex (settle j reply s) = Suc (currentIndex s)"
    by (rule settle_live_result(1)[OF i assms(2,3) o])
  moreover have "run_status (settle j reply s) =
      (if Suc (currentIndex s) < length (rows (csvData s)) then Running else Done)"
    unfolding sl using rerender_running(1)[OF r l] by simp
  moreover have "Suc (currentIndex s) < length (rows (csvData s)) \<Longrightarrow>
      status (results (settle j reply s) ! Suc (currentIndex s)) = Processing"
    unfolding sl using rerender_running(2)[OF r l] by simp
  ultimately show ?thesis using lc(2) by simp
qed

text \<open>
  The first call of the two-row table throws \<open>rate limited\<close>, or throws a value that is
  not an \<^verbatim>\<open>Error\<close>, or its response is the object without members.
\<close>

theorem failed_row_recorded_witness:
  "idx (calls started ! 0) = currentIndex started \<and>
   results (settle 0 (CallThrows (ErrorInstance ''rate limited'')) started) ! currentIndex started =
     \<lparr>status = Error, row_keywords = [], error = Some ''rate limited''\<rparr> \<and>
   currentIndex (settle 0 (CallThrows (ErrorInstance ''rate limited'')) started) = 1 \<and>
   run_status (settle 0 (CallThrows (ErrorInstance ''rate limited'')) started) = Running \<and>
   status (results (settle 0 (CallThrows (ErrorInstance ''rate limited'')) started) ! 1) = Processing \<and>
   results (settle 0 (CallThrows OtherThrown) started) ! currentIndex started =
     \<lparr>status = Error, row_keywords = [], error = Some ''Unknown error''\<rparr> \<and>
   results (settle 0 (Parsed (JObj [])) started) ! currentIndex started =
     \<lparr>status = Error, row_keywords = [],
      error = Some ''Could not parse keywords from the response.''\<rparr>"
proof -
  have c: "0 < length (calls started)" "live (calls started ! 0)"
    "currentIndex started = 0" "length (rows (csvData started)) = 2"
    by (simp_all add: started_state run_state_def active_call_def live_def)
  have f: "is_failure (CallThrows (ErrorInstance ''rate limited''))"
    "is_failure (CallThrows OtherThrown)" "is_failure (Parsed (JObj []))"
    by (simp_all add: is_failure_def)
  show ?thesis
    using failed_row_recorded[OF reachable_started_state c(1,2) f(1)]
      failed_row_recorded[OF reachable_started_state c(1,2) f(2)]
      failed_row_recorded[OF reachable_started_state c(1,2) f(3)] c(3,4)
    by (simp add: failure_message_def)
qed

text \<open>
  When the reply to a live call has a \<^verbatim>\<open>keywords\<close> that counts as true but is no array
  of values that can be shown, no \<^verbatim>\<open>Error\<close> is thrown and no outcome is recorded: the
  render throws and the component is removed, for good.
\<close>

lemma malformed_reply_unmounts:
  assumes "reachable s" and "j < length (calls s)" and "live (calls s ! j)"
    and "truthy k" and "keywords_array k = None"
  shows "unmounted (settle j (keywords_reply k) s) \<and>
         results (settle j (keywords_reply k) s) = [] \<and>
         currentIndex (settle j (keywords_reply k) s) = 0 \<and>
         run_status (settle j (keywords_reply k) s) = Idle \<and>
         exec (settle j (keywords_reply k) s) evs = settle j (keywords_reply k) s"
proof -
  have "generateKeywordsFromApi (keywords_reply k) = Inr k"
    using assms(4) by (simp add: keywords_reply_def generate_returns)
  then have o: "outcome (generateKeywordsFromApi (keywords_reply k)) = None"
    using assms(5) by (simp add: outcome_def)
  have u: "unmounted (settle j (keywords_reply k) s)"
    unfolding settle_crash[OF reachable_inv[OF assms(1)] reachable_view[OF assms(1)] assms(2,3) o]
    by simp
  show ?thesis
    using exec_unmounted[OF u, of evs]
    unfolding settle_crash[OF reachable_inv[OF assms(1)] reachable_view[OF assms(1)] assms(2,3) o]
    by simp
qed

text \<open>
  Against claim C5 as stated. The two-row table has been started and the reply to the
  first call is the object with \<^verbatim>\<open>keywords\<close> the string \<^verbatim>\<open>cat, dog\<close> in place of an
  array. \<^verbatim>\<open>generateKeywordsFromApi\<close> returns the string as the keywords, the row is to
  become \<open>completed\<close> with it, and the render of the table throws: the component is
  removed, no outcome exists, the cursor has not advanced, and neither the start
  button nor a later reply changes that. And a thrown \<^verbatim>\<open>Error\<close> whose
  message is empty is recorded with the empty message, not with \<open>Unknown error\<close>.
\<close>

theorem malformed_keywords_halt:
  "generateKeywordsFromApi (keywords_reply (JStr ''cat, dog'')) = Inr (JStr ''cat, dog'') \<and>
   step started (Settle 0 (keywords_reply (JStr ''cat, dog''))) =
     init_state\<lparr>calls := [finished_call [[(''a'', ''x'')], [(''a'', ''y'')]] 0],
                unmounted := True\<rparr> \<and>
   results (step started (Settle 0 (keywords_reply (JStr ''cat, dog'')))) = [] \<and>
   currentIndex (step started (Settle 0 (keywords_reply (JStr ''cat, dog'')))) = 0 \<and>
   run_status (step started (Settle 0 (keywords_reply (JStr ''cat, dog'')))) = Idle \<and>
   exec (step started (Settle 0 (keywords_reply (JStr ''cat, dog''))))
       [Toggle, Settle 1 (keywords_reply (JArr [JStr ''k'']))] =
     step started (Settle 0 (keywords_reply (JStr ''cat, dog''))) \<and>
   results (settle 0 (CallThrows (ErrorInstance [])) started) ! 0 =
     \<lparr>status = Error, row_keywords = [], error = Some []\<rparr>"
proof -
  have g: "generateKeywordsFromApi (keywords_reply (JStr ''cat, dog'')) = Inr (JStr ''cat, dog'')"
    by (simp add: generateKeywordsFromApi_def keywords_reply_def)
  have o: "outcome (generateKeywordsFromApi (keywords_reply (JStr ''cat, dog''))) = None"
    unfolding g by (simp add: outcome_def)
  have s: "step started (Settle 0 (keywords_reply (JStr ''cat, dog''))) =
     init_state\<lparr>calls := [finished_call [[(''a'', ''x'')], [(''a'', ''y'')]] 0],
                unmounted := True\<rparr>"
    by (simp add: started_step started_crash[OF o])
  have e: "outcome (generateKeywordsFromApi (CallThrows (ErrorInstance []))) =
     Some \<lparr>status = Error, row_keywords = [], error = Some []\<rparr>"
    by (simp add: outcome_def generateKeywordsFromApi_def errorMessage_def)
  have r: "results (settle 0 (CallThrows (ErrorInstance [])) started) ! 0 =
     \<lparr>status = Error, row_keywords = [], error = Some []\<rparr>"
    unfolding started_settle[OF e] by (simp add: run_state_def)
  have u: "exec (init_state\<lparr>calls := [finished_call [[(''a'', ''x'')], [(''a'', ''y'')]] 0],
                unmounted := True\<rparr>) [Toggle, Settle 1 (keywords_reply (JArr [JStr ''k'']))] =
           init_state\<lparr>calls := [finished_call [[(''a'', ''x'')], [(''a'', ''y'')]] 0],
                unmounted := True\<rparr>"
    by (rule exec_unmounted) simp
  show ?thesis
    using g r u unfolding s by (simp add: init_state_def)
qed

text \<open>
  Other shapes with the same end: a number, an object, and an array that holds an
  object.
\<close>

lemma malformed_shapes:
  "truthy (JNum ''42'') \<and> keywords_array (JNum ''42'') = None"
  "truthy (JObj [(''list'', JArr [JStr ''cat''])]) \<and>
     keywords_array (JObj [(''list'', JArr [JStr ''cat''])]) = None"
  "truthy (JArr [JObj [(''keyword'', JStr ''cat'')]]) \<and>
     keywords_array (JArr [JObj [(''keyword'', JStr ''cat'')]]) = None"
  by simp_all

section \<open>Pausing\<close>

lemma pause_quiet:
  assumes "inv s" and "run_status s = Running"
  shows "results (toggleProcessing s) = results s"
    and "currentIndex (toggleProcessing s) = currentIndex s"
    and "run_status (toggleProcessing s) = Paused"
    and "\<And>j. j < length (calls (toggleProcessing s)) \<Longrightarrow> \<not> live (calls (toggleProcessing s) ! j)"
proof -
  let ?t = "s\<lparr>run_status := Paused\<rparr>"
  have e: "toggleProcessing s = run_cleanup ?t"
    using assms(2) by (simp add: toggleProcessing_def rerender_def effect_def)
  show "results (toggleProcessing s) = results s"
    and "currentIndex (toggleProcessing s) = currentIndex s"
    and "run_status (toggleProcessing s) = Paused"
    unfolding e by simp_all
  have c: "\<forall>j < length (calls ?t). live (calls ?t ! j) \<longrightarrow> cleanup ?t = Some j"
    using invD(3)[OF assms(1)] by simp
  fix j assume "j < length (calls (toggleProcessing s))"
  then have "j < length (calls ?t)" unfolding e by simp
  then show "\<not> live (calls (toggleProcessing s) ! j)"
    unfolding e by (rule run_cleanup_no_live[OF c])
qed

lemma quiet_settle:
  assumes "\<And>j. j < length (calls p) \<Longrightarrow> \<not> live (calls p ! j)"
  shows "results (settle j reply p) = results p"
    and "currentIndex (settle j reply p) = currentIndex p"
    and "run_status (settle j reply p) = run_status p"
    and "\<And>k. k < length (calls (settle j reply p)) \<Longrightarrow> \<not> live (calls (settle j reply p) ! k)"
proof -
  have st: "j \<ge> length (calls p) \<or> settled (calls p ! j) \<or> isCancelled (calls p ! j)"
    using assms[of j] by (auto simp: live_def)
  show "results (settle j reply p) = results p"
    and "currentIndex (settle j reply p) = currentIndex p"
    and "run_status (settle j reply p) = run_status p"
    by (simp_all add: settle_stale[OF st])
  fix k assume "k < length (calls (settle j reply p))"
  then have k: "k < length (calls p)" by (simp add: settle_stale[OF st])
  show "\<not> live (calls (settle j reply p) ! k)"
    by (rule settle_stale_calls[OF st k assms[OF k]])
qed

lemma quiet_step:
  assumes "\<And>j. j < length (calls p) \<Longrightarrow> \<not> live (calls p ! j)"
  shows "results (step p (Settle j reply)) = results p"
    and "currentIndex (step p (Settle j reply)) = currentIndex p"
    and "run_status (step p (Settle j reply)) = run_status p"
    and "\<And>k. k < length (calls (step p (Settle j reply))) \<Longrightarrow>
           \<not> live (calls (step p (Settle j reply)) ! k)"
proof -
  show "results (step p (Settle j reply)) = results p"
    and "currentIndex (step p (Settle j reply)) = currentIndex p"
    and "run_status (step p (Settle j reply)) = run_status p"
    using quiet_settle(1-3)[where p=p and j=j and reply=reply] assms
    by (simp_all add: step_def)
  fix k assume k: "k < length (calls (step p (Settle j reply)))"
  show "\<not> live (calls (step p (Settle j reply)) ! k)"
  proof (cases "unmounted p")
    case True
    then show ?thesis using k assms by (simp add: step_def)
  next
    case False
    then show ?thesis
      using k quiet_settle(4)[where p=p and j=j and reply=reply and k=k] assms
      by (simp add: step_def)
  qed
qed

lemma quiet_settles:
  assumes "\<And>j. j < length (calls p) \<Longrightarrow> \<not> live (calls p ! j)"
    and "list_all is_settle later"
  shows "results (exec p later) = results p \<and> currentIndex (exec p later) = currentIndex p \<and>
         run_status (exec p later) = run_status p"
  using assms unfolding exec_def
proof (induction later arbitrary: p)
  case Nil
  then show ?case by simp
next
  case (Cons e later)
  then obtain j reply where e: "e = Settle j reply" by (cases e) auto
  let ?q = "step p (Settle j reply)"
  have "results (foldl step ?q later) = results ?q \<and>
        currentIndex (foldl step ?q later) = currentIndex ?q \<and>
        run_status (foldl step ?q later) = run_status ?q"
  proof (rule Cons.IH)
    fix k assume k: "k < length (calls ?q)"
    show "\<not> live (calls ?q ! k)"
      using quiet_step(4)[where p=p and j=j and reply=reply and k=k] Cons.prems(1) k by blast
  qed (use Cons.prems(2) in simp)
  moreover have "results ?q = results p" "currentIndex ?q = currentIndex p"
    "run_status ?q = run_status p"
    using quiet_step(1-3)[where p=p and j=j and reply=reply] Cons.prems(1) by blast+
  ultimately show ?case
    using e by simp
qed

text \<open>
  The shape of the outcomes is kept by the events of a run, as long as the component is
  there.
\<close>

lemma shape_rerender:
  assumes "length (results t) = R" and "length (rows (csvData t)) = R" and "currentIndex t \<le> R"
    and "\<And>i. i < currentIndex t \<Longrightarrow> terminal (results t ! i)"
    and "\<And>i. currentIndex t < i \<Longrightarrow> i < R \<Longrightarrow> status (results t ! i) = Pending"
  shows "run_shape R (rerender t)"
  unfolding run_shape_def
  using assms by (simp add: rerender_results_other)

lemma shape_toggle: "run_shape R s \<Longrightarrow> run_shape R (toggleProcessing s)"
  unfolding toggleProcessing_def
  by (rule shape_rerender) (simp_all add: run_shape_def)

lemma shape_settle:
  assumes "inv s" and "view_inv s" and "run_shape R s"
  shows "unmounted (settle j reply s) \<or> run_shape R (settle j reply s)"
proof (cases "j < length (calls s) \<and> live (calls s ! j)")
  case True
  then have jl: "j < length (calls s)" and lv: "live (calls s ! j)" by simp_all
  note lc = live_call[OF assms(1) jl lv]
  have lt: "currentIndex s < R" using lc(3) assms(3) by (simp add: run_shape_def)
  show ?thesis
  proof (cases "outcome (generateKeywordsFromApi reply)")
    case None
    show ?thesis
      unfolding settle_crash[OF assms(1,2) jl lv None] by simp
  next
    case (Some row)
    have "run_shape R (settle j reply s)"
      unfolding settle_live[OF assms(1) jl lv Some]
    proof (rule shape_rerender)
      fix i
      assume "i < currentIndex (s\<lparr>calls := (calls s)[j := (calls s ! j)\<lparr>settled := True\<rparr>],
                 results := (results s)[currentIndex s := row],
                 currentIndex := Suc (currentIndex s)\<rparr>)"
      then have "i < currentIndex s \<or> i = currentIndex s" by auto
      then show "terminal (results (s\<lparr>calls := (calls s)[j := (calls s ! j)\<lparr>settled := True\<rparr>],
                 results := (results s)[currentIndex s := row],
                 currentIndex := Suc (currentIndex s)\<rparr>) ! i)"
        using assms(3) lc(3) terminal_outcome[OF Some] by (auto simp: run_shape_def)
    qed (use assms(3) lt in \<open>simp_all add: run_shape_def\<close>)
    then show ?thesis by simp
  qed
next
  case False
  then have st: "j \<ge> length (calls s) \<or> settled (calls s ! j) \<or> isCancelled (calls s ! j)"
    by (auto simp: live_def)
  show ?thesis
    using assms(3) unfolding run_shape_def by (simp add: settle_stale[OF st])
qed

lemma shape_step:
  assumes "inv s" and "view_inv s" and "unmounted s \<or> run_shape R s" and "run_event e"
  shows "unmounted (step s e) \<or> run_shape R (step s e)"
proof (cases "unmounted s")
  case True
  then show ?thesis by (simp add: step_def)
next
  case False
  then have sh: "run_shape R s" using assms(3) by simp
  show ?thesis
    using assms(4) False sh shape_settle[OF assms(1,2) sh]
    by (cases e) (simp_all add: step_def shape_toggle)
qed

lemma run_exec:
  assumes "inv s" and "view_inv s" and "unmounted s \<or> run_shape R s" and "list_all run_event evs"
  shows "inv (exec s evs) \<and> view_inv (exec s evs) \<and>
         (unmounted (exec s evs) \<or> run_shape R (exec s evs))"
  using assms unfolding exec_def
proof (induction evs arbitrary: s)
  case Nil
  then show ?case by simp
next
  case (Cons e evs)
  have "inv (step s e)" "view_inv (step s e)"
    by (rule inv_step[OF Cons.prems(1,2)])+
  moreover have "unmounted (step s e) \<or> run_shape R (step s e)"
    using Cons.prems by (intro shape_step) simp_all
  ultimately show ?case using Cons.IH[of "step s e"] Cons.prems(4) by simp
qed

lemma load_shape:
  assumes "file_type f = ''text/csv''"
    and "parseCSV (file_text f) = \<lparr>headers = hs, rows = rs\<rparr>"
    and "hs \<noteq> []" and "rs \<noteq> []"
  shows "run_shape (length rs) (load f)"
  unfolding load_valid[OF assms] by (simp add: run_shape_def init_state_def pending_row_def)

text \<open>
  Claim C2. Load a valid table of \<open>R\<close> rows, let any events of a run (start, pause,
  resume, replies) happen, and let the run be \<open>running\<close> with the cursor at \<open>k\<close>. If pause
  is pressed now and afterwards only replies arrive, then every such reply is discarded:
  the status stays \<open>paused\<close>, the cursor stays at \<open>k\<close> and the outcomes stay as they were
  at the pause, with \<open>k < R\<close>, the outcomes before \<open>k\<close> terminal, outcome \<open>k\<close> \<open>processing\<close>
  or terminal, and the outcomes after \<open>k\<close> \<open>pending\<close>.
\<close>

theorem pause_discards_results:
  assumes "file_type f = ''text/csv''"
    and "parseCSV (file_text f) = \<lparr>headers = hs, rows = rs\<rparr>"
    and "hs \<noteq> []" and "rs \<noteq> []"
    and "list_all run_event evs"
    and "run_status (exec (load f) evs) = Running"
    and "list_all is_settle later"
  shows "run_status (exec (exec (load f) evs) (Toggle # later)) = Paused \<and>
         currentIndex (exec (exec (load f) evs) (Toggle # later)) = currentIndex (exec (load f) evs) \<and>
         results (exec (exec (load f) evs) (Toggle # later)) = results (exec (load f) evs) \<and>
         length (results (exec (exec (load f) evs) (Toggle # later))) = length rs \<and>
         currentIndex (exec (load f) evs) < length rs \<and>
         (\<forall>i < currentIndex (exec (load f) evs).
            terminal (results (exec (exec (load f) evs) (Toggle # later)) ! i)) \<and>
         (status (results (exec (exec (load f) evs) (Toggle # later)) ! currentIndex (exec (load f) evs))
            = Processing \<or>
          terminal (results (exec (exec (load f) evs) (Toggle # later)) ! currentIndex (exec (load f) evs))) \<and>
         (\<forall>i. currentIndex (exec (load f) evs) < i \<and> i < length rs \<longrightarrow>
            status (results (exec (exec (load f) evs) (Toggle # later)) ! i) = Pending)"
proof -
  let ?s = "exec (load f) evs"
  let ?p = "toggleProcessing ?s"
  have "inv (load f)" "view_inv (load f)"
    by (rule reachable_inv[OF reachable_load], rule reachable_view[OF reachable_load])
  then have i: "inv ?s" and v: "view_inv ?s" and us: "unmounted ?s \<or> run_shape (length rs) ?s"
    using run_exec[OF _ _ _ assms(5), of "load f" "length rs"] load_shape[OF assms(1-4)]
    by simp_all
  have u: "\<not> unmounted ?s" and sf: "selected_file ?s \<noteq> None"
    using v assms(6) by (auto simp: view_inv_def)
  have sh: "run_shape (length rs) ?s" using us u by simp
  obtain j where c: "cleanup ?s = Some j" using invD(11)[OF i assms(6)] by blast
  have lt: "currentIndex ?s < length rs"
    using invD(7)[OF i c] sh by (simp add: run_shape_def)
  have pr: "status (results ?s ! currentIndex ?s) = Processing" by (rule invD(9)[OF i c])
  have st: "step ?s Toggle = ?p"
    using u sf assms(6) by (simp add: step_def)
  note pq = pause_quiet[OF i assms(6)]
  have "results (exec ?p later) = results ?p \<and> currentIndex (exec ?p later) = currentIndex ?p \<and>
        run_status (exec ?p later) = run_status ?p"
    by (rule quiet_settles[OF pq(4) assms(7)])
  then have t: "results (exec ?s (Toggle # later)) = results ?s"
    "currentIndex (exec ?s (Toggle # later)) = currentIndex ?s"
    "run_status (exec ?s (Toggle # later)) = Paused"
    using pq(1-3) st by (simp_all add: exec_def)
  show ?thesis
    unfolding t using sh lt pr by (simp add: run_shape_def)
qed

lemma three_rows_table:
  "file_type three_rows = ''text/csv''"
  "parseCSV (file_text three_rows) =
     \<lparr>headers = [''a''], rows = [[(''a'', ''x'')], [(''a'', ''y'')], [(''a'', ''z'')]]\<rparr>"
  by (simp_all add: three_rows_def table_file_def parse_defs)

lemma three_rows_first:
  "outcome (generateKeywordsFromApi reply) = Some row \<Longrightarrow>
   exec (load three_rows) [Toggle, Settle 0 reply] =
   run_state three_rows [''a''] [[(''a'', ''x'')], [(''a'', ''y'')], [(''a'', ''z'')]] [row]"
proof -
  assume o: "outcome (generateKeywordsFromApi reply) = Some row"
  have "full_run three_rows [reply] =
        run_state three_rows [''a''] [[(''a'', ''x'')], [(''a'', ''y'')], [(''a'', ''z'')]] [row]"
    by (rule full_run_state[OF three_rows_table]) (simp_all add: o)
  then show ?thesis by (simp add: full_run_def)
qed

text \<open>
  Three rows: the first reply arrives, pause is pressed with the second call in flight,
  then the second reply arrives.
\<close>

theorem pause_discards_results_witness:
  "run_status (exec (exec (load three_rows) [Toggle, Settle 0 (keywords_reply (JArr [JStr ''k'']))])
      [Toggle, Settle 1 (keywords_reply (JArr [JStr ''late'']))]) = Paused \<and>
   currentIndex (exec (exec (load three_rows) [Toggle, Settle 0 (keywords_reply (JArr [JStr ''k'']))])
      [Toggle, Settle 1 (keywords_reply (JArr [JStr ''late'']))]) = 1 \<and>
   results (exec (exec (load three_rows) [Toggle, Settle 0 (keywords_reply (JArr [JStr ''k'']))])
      [Toggle, Settle 1 (keywords_reply (JArr [JStr ''late'']))]) =
     [\<lparr>status = Completed, row_keywords = [JStr ''k''], error = None\<rparr>, processing_row, pending_row]"
proof -
  let ?evs = "[Toggle, Settle 0 (keywords_reply (JArr [JStr ''k'']))]"
  let ?later = "[Settle 1 (keywords_reply (JArr [JStr ''late'']))]"
  have r: "run_status (exec (load three_rows) ?evs) = Running"
    "currentIndex (exec (load three_rows) ?evs) = 1"
    "results (exec (load three_rows) ?evs) =
       [\<lparr>status = Completed, row_keywords = [JStr ''k''], error = None\<rparr>, processing_row, pending_row]"
    unfolding three_rows_first[OF keywords_outcome]
    by (simp_all add: run_state_def)
  have e: "list_all run_event ?evs" "list_all is_settle ?later" by simp_all
  show ?thesis
    using pause_discards_results[OF three_rows_table _ _ e(1) r(1) e(2)] r(2,3)
    by simp
qed

section \<open>A failed upload\<close>

text \<open>
  Claim C9. A file of type \<^verbatim>\<open>text/csv\<close> whose text parses to no rows or no headers is
  selected in any state: the selected file is replaced at once, and when the reader has
  delivered the text, the table, the outcomes, the cursor and the run status are still
  those from before, with the error message set.
\<close>

theorem failed_upload_keeps_table:
  assumes "file_type f = ''text/csv''"
    and "rows (parseCSV (file_text f)) = [] \<or> headers (parseCSV (file_text f)) = []"
  shows "selected_file (handleFileChange (Some f) s) = Some f \<and>
         csvData (handleFileChange (Some f) s) = csvData s \<and>
         results (handleFileChange (Some f) s) = results s \<and>
         selected_file (reader_onload (length (reading s)) (handleFileChange (Some f) s)) = Some f \<and>
         csvData (reader_onload (length (reading s)) (handleFileChange (Some f) s)) = csvData s \<and>
         results (reader_onload (length (reading s)) (handleFileChange (Some f) s)) = results s \<and>
         currentIndex (reader_onload (length (reading s)) (handleFileChange (Some f) s)) = currentIndex s \<and>
         run_status (reader_onload (length (reading s)) (handleFileChange (Some f) s)) = run_status s \<and>
         ui_error (reader_onload (length (reading s)) (handleFileChange (Some f) s)) =
           Some ''CSV is empty or invalid.''"
  using assms by (auto simp: handleFileChange_def reader_onload_def Let_def)

lemma header_only_empty:
  "file_type header_only = ''text/csv''"
  "rows (parseCSV (file_text header_only)) = [] \<or> headers (parseCSV (file_text header_only)) = []"
  by (simp_all add: header_only_def table_file_def parse_defs)

text \<open>
  How a table comes to be there when a file is selected: the two-row file is selected,
  reset is pressed before the reader has finished, and the reader then delivers the
  table. The file input is in the view again, and a header-only file is selected.
\<close>

lemma reset_while_reading:
  "exec init_state [SelectFile (Some two_rows), Reset, ReaderLoaded 0] =
   init_state\<lparr>csvData := \<lparr>headers = [''a''], rows = [[(''a'', ''x'')], [(''a'', ''y'')]]\<rparr>,
              results := [pending_row, pending_row]\<rparr>"
  using two_rows_table
  by (simp add: exec_def step_def handleFileChange_def handleReset_def reader_onload_def
      init_state_def rerender_def run_cleanup_def effect_def Let_def numeral_2_eq_2)

theorem failed_upload_keeps_table_witness:
  "selected_file (exec init_state [SelectFile (Some two_rows), Reset, ReaderLoaded 0,
      SelectFile (Some header_only), ReaderLoaded 0]) = Some header_only \<and>
   csvData (exec init_state [SelectFile (Some two_rows), Reset, ReaderLoaded 0,
      SelectFile (Some header_only), ReaderLoaded 0]) =
     \<lparr>headers = [''a''], rows = [[(''a'', ''x'')], [(''a'', ''y'')]]\<rparr> \<and>
   results (exec init_state [SelectFile (Some two_rows), Reset, ReaderLoaded 0,
      SelectFile (Some header_only), ReaderLoaded 0]) = [pending_row, pending_row] \<and>
   ui_error (exec init_state [SelectFile (Some two_rows), Reset, ReaderLoaded 0,
      SelectFile (Some header_only), ReaderLoaded 0]) = Some ''CSV is empty or invalid.''"
proof -
  let ?s = "init_state\<lparr>csvData := \<lparr>headers = [''a''], rows = [[(''a'', ''x'')], [(''a'', ''y'')]]\<rparr>,
              results := [pending_row, pending_row]\<rparr>"
  have "exec init_state [SelectFile (Some two_rows), Reset, ReaderLoaded 0,
          SelectFile (Some header_only), ReaderLoaded 0] =
        exec (exec init_state [SelectFile (Some two_rows), Reset, ReaderLoaded 0])
          [SelectFile (Some header_only), ReaderLoaded 0]"
    by (simp add: exec_def)
  also have "\<dots> = reader_onload 0 (handleFileChange (Some header_only) ?s)"
    unfolding reset_while_reading using header_only_empty(1)
    by (simp add: exec_def step_def init_state_def handleFileChange_def)
  finally have e: "exec init_state [SelectFile (Some two_rows), Reset, ReaderLoaded 0,
          SelectFile (Some header_only), ReaderLoaded 0] =
        reader_onload 0 (handleFileChange (Some header_only) ?s)" .
  show ?thesis
    unfolding e
    using failed_upload_keeps_table[OF header_only_empty, of ?s]
    by (simp add: init_state_def)
qed

section \<open>The exported table\<close>

lemma unescape_plain: "c \<noteq> dquote \<Longrightarrow> unescape (c # cs) = map_option ((#) c) (unescape cs)"
  by (cases cs) auto

lemma unescape_double_quotes: "unescape (double_quotes v) = Some v"
  by (induction v) (auto simp: double_quotes_def unescape_plain)

lemma wrapped_quoted: "wrapped (quoted v)"
  by (simp add: wrapped_def quoted_def)

lemma unquote_quoted: "unquote_field (quoted (double_quotes v)) = Some v"
proof -
  have "butlast (tl (quoted (double_quotes v))) = double_quotes v"
    by (simp add: quoted_def)
  then show ?thesis
    by (simp add: unquote_field_def wrapped_quoted unescape_double_quotes)
qed

text \<open>
  The fields of the original columns are standard quoted fields: unquoting gives the
  value of the record back, or the empty text when the record has none.
\<close>

lemma original_value_escaped:
  assumes "original_value row h = Inr f"
  shows "unquote_field f = Some (case row_lookup row h of Str v \<Rightarrow> v | _ \<Rightarrow> [])"
proof (cases "row_lookup row h")
  case Undefined
  then have "f = quoted (double_quotes [])"
    using assms by (simp add: original_value_def double_quotes_def)
  then show ?thesis using Undefined by (simp add: unquote_quoted)
next
  case (Str v)
  then have "f = quoted (double_quotes v)"
    using assms by (simp add: original_value_def)
  then show ?thesis using Str by (simp add: unquote_quoted)
next
  case Inherited
  then show ?thesis using assms by (simp add: original_value_def)
qed

text \<open>In every reachable state each row has an outcome.\<close>

lemma reachable_results_length:
  "reachable s \<Longrightarrow> length (results s) = length (rows (csvData s))"
  by (rule invD(1)[OF reachable_inv])

lemma two_rows_done:
  assumes "outcome (generateKeywordsFromApi r1) = Some row1"
    and "outcome (generateKeywordsFromApi r2) = Some row2"
  shows "full_run two_rows [r1, r2] =
         run_state two_rows [''a''] [[(''a'', ''x'')], [(''a'', ''y'')]] [row1, row2]"
  by (rule full_run_state[OF two_rows_table]) (simp_all add: assms)

lemmas export_defs = csvContent_def export_header_def export_row_def original_value_def
  row_lookup_def object_prototype_keys_def quoted_def double_quotes_def status_text_def
  status_name_def Let_def

text \<open>
  Claim C3, where the program departs from it. The two-row table is run to the end; the
  first reply brings the keyword \<^verbatim>\<open>k"w\<close>, the second reply is no JSON text and the
  parse error has the message \<^verbatim>\<open>Unexpected token "<"\<close>. In the export, the fields of
  the header line are not wrapped in double quotes, and the double quotes inside the
  keyword and inside the error message are not doubled, so that the \<open>Keywords\<close> field of
  the first row and the \<open>Status\<close> field of the second are not standard quoted fields.
\<close>

theorem export_unescaped:
  "csvContent (full_run two_rows
      [keywords_reply (JArr [JStr ''k\"w'']), ParseThrows ''Unexpected token \"<\"'']) =
     Inr (''a,Keywords,Status'' @ [newline] @
          ''\"x\",\"k\"w\",\"completed\"'' @ [newline] @
          ''\"y\",\"\",\"Error: Unexpected token \"<\"\"'') \<and>
   \<not> wrapped ''a'' \<and> \<not> wrapped ''Keywords'' \<and> \<not> wrapped ''Status'' \<and>
   unquote_field ''\"k\"w\"'' = None \<and>
   unquote_field ''\"Error: Unexpected token \"<\"\"'' = None"
proof -
  have o: "outcome (generateKeywordsFromApi (keywords_reply (JArr [JStr ''k\"w'']))) =
             Some \<lparr>status = Completed, row_keywords = [JStr ''k\"w''], error = None\<rparr>"
    "outcome (generateKeywordsFromApi (ParseThrows ''Unexpected token \"<\"'')) =
             Some \<lparr>status = Error, row_keywords = [], error = Some ''Unexpected token \"<\"''\<rparr>"
    by (simp_all add: outcome_def generateKeywordsFromApi_def keywords_reply_def errorMessage_def)
  show ?thesis
    unfolding two_rows_done[OF o]
    by (simp add: run_state_def export_defs wrapped_def unquote_field_def)
qed

text \<open>
  Keywords that are no strings are written as \<^verbatim>\<open>join\<close> converts them: a number by its
  digits, \<^verbatim>\<open>null\<close> as nothing, an array by its elements joined with commas.
\<close>

lemma export_row_values:
  "export_row [''a''] [(''a'', ''x'')]
     \<lparr>status = Completed,
      row_keywords = [JStr ''k'', JNum ''7'', JNull, JBool True, JArr [JStr ''p'', JStr ''q'']],
      error = None\<rparr> =
   Inr ''\"x\",\"k; 7; ; true; p,q\",\"completed\"''"
  by (simp add: export_defs)

text \<open>
  A column named \<^verbatim>\<open>__proto__\<close>: the table is read and run to the end, and the export
  raises a \<^verbatim>\<open>TypeError\<close> in place of a table.
\<close>

lemma export_proto_header:
  "csvContent (full_run (table_file (''__proto__,b'' @ [newline] @ ''x,z''))
      [keywords_reply (JArr [JStr ''k''])]) = Inl TypeError"
proof -
  have t: "file_type (table_file (''__proto__,b'' @ [newline] @ ''x,z'')) = ''text/csv''"
    by (simp add: table_file_def)
  have p: "parseCSV (file_text (table_file (''__proto__,b'' @ [newline] @ ''x,z''))) =
           \<lparr>headers = [''__proto__'', ''b''], rows = [[(''b'', ''z'')]]\<rparr>"
    by (simp add: table_file_def parse_defs)
  have "full_run (table_file (''__proto__,b'' @ [newline] @ ''x,z''))
          [keywords_reply (JArr [JStr ''k''])] =
        run_state (table_file (''__proto__,b'' @ [newline] @ ''x,z''))
          [''__proto__'', ''b''] [[(''b'', ''z'')]]
          [\<lparr>status = Completed, row_keywords = [JStr ''k''], error = None\<rparr>]"
    by (rule full_run_state[OF t p]) (simp_all add: keywords_outcome)
  then show ?thesis
    by (simp add: run_state_def export_defs)
qed

end
